theory Spec2Isabelle
  imports Complex_Main "HOL-Library.Word"
begin

section \<open>Data model\<close>

text \<open>
  The development embeds the latest revision of \<^verbatim>\<open>canny.go\<close> (the one whose
  \<^verbatim>\<open>CannyEdgeDetect\<close> takes the blur flag and the two threshold ratios) together with
  the \<^verbatim>\<open>GrayPixel\<close> structure of the main package.

  Go's \<^verbatim>\<open>int\<close> is modelled by \<^typ>\<open>int\<close>: every integer the code computes is an image
  coordinate plus or minus a kernel radius, far away from the 64-bit limits.
  \<^verbatim>\<open>uint8\<close> is \<^typ>\<open>8 word\<close>. A slice is a list; reading a slice outside its bounds is
  the run-time panic \<open>IndexOutOfRange\<close>, \<^verbatim>\<open>panic(errors.New(msg))\<close> is \<open>Error msg\<close>, and a
  panic raised inside the matrix library is \<open>MatrixLibraryPanic\<close>.

  A \<^verbatim>\<open>float64\<close> is modelled by \<^typ>\<open>real\<close>. The numbers of the blur of kernel size 5
  and of the gradient magnitude are represented exactly by \<^verbatim>\<open>float64\<close>: gray values, the
  Sobel sums (integers of absolute value at most 1020), the weights of the kernel of size 5
  (multiples of \<open>1/16\<close>) and the sums and squares formed from them. \<^verbatim>\<open>math.Sqrt\<close> rounds
  correctly, and the square root of such a number is either an integer or further away
  from every integer than the rounding error, so the integer part taken by \<^verbatim>\<open>uint8(...)\<close>
  is that of the real square root.

  Where \<^verbatim>\<open>float64\<close> does round, the model is this.

  \<^item> The two threshold products \<^verbatim>\<open>maxRatio*float64(max)\<close> and \<^verbatim>\<open>minRatio*float64(max)\<close>
    are rounded products, which need not be the real products (for the ratio \<^verbatim>\<open>0.7\<close> and
    the maximum 90 the \<^verbatim>\<open>float64\<close> product is below 63). The multiplication of
    \<^verbatim>\<open>float64\<close> is therefore a parameter, \<open>fmul\<close>, of \<open>CannyEdgeDetect\<close>, and the
    independence of the iteration order is proved for every such function.

  \<^item> The angle of the gradient stage is the real angle. Where one of the two Sobel sums is
    0 the code stores the angle 0 itself. Elsewhere the angle is that of a ratio of two
    integers of absolute value at most 1020; the tangents of the limits \<open>\<plusminus>22.5\<close> and
    \<open>\<plusminus>67.5\<close> that non-maximum suppression compares it with are irrational, and such a
    ratio stays away from them by much more than the rounding error of the quotient, of
    \<^verbatim>\<open>math.Atan\<close> and of the factor \<^verbatim>\<open>180/math.Pi\<close>: the rounded angle falls between the
    same limits as the real one.

  \<^item> The blur is exact for the kernel size 5, the only one the pipeline uses. For large
    kernels the weights and sums are rounded by \<^verbatim>\<open>float64\<close>, and the binomial
    coefficients, which the library computes in 64-bit integers, overflow (from row 62
    on); there the model, which has the exact numbers, differs from the code.
\<close>

type_synonym u8 = "8 word"

text \<open>
  \<^verbatim>\<open>type GrayPixel struct { y uint8; a uint8 }\<close>: the fields \<^verbatim>\<open>y\<close> and \<^verbatim>\<open>a\<close> are
  the selectors \<open>pix_y\<close> (gray value) and \<open>pix_a\<close> (alpha value).
\<close>

datatype GrayPixel = GrayPixel (pix_y: u8) (pix_a: u8)

text \<open>\<^verbatim>\<open>image.Point{X, Y}\<close> of the standard library.\<close>

datatype Point = Point (ptX: int) (ptY: int)

datatype direction = HORIZONTAL | VERTICAL

datatype panic = IndexOutOfRange | Error string | MatrixLibraryPanic

fun bindP :: "panic + 'a \<Rightarrow> ('a \<Rightarrow> panic + 'b) \<Rightarrow> panic + 'b" where
  "bindP (Inl e) f = Inl e"
| "bindP (Inr v) f = f v"

text \<open>A loop that appends one computed element per iteration; the first panic ends it.\<close>

fun mapP :: "('a \<Rightarrow> panic + 'b) \<Rightarrow> 'a list \<Rightarrow> panic + 'b list" where
  "mapP f [] = Inr []"
| "mapP f (x # xs) = bindP (f x) (\<lambda>v. bindP (mapP f xs) (\<lambda>vs. Inr (v # vs)))"

text \<open>A loop that updates a state once per iteration; the first panic ends it.\<close>

fun foldP :: "('a \<Rightarrow> 's \<Rightarrow> panic + 's) \<Rightarrow> 'a list \<Rightarrow> 's \<Rightarrow> panic + 's" where
  "foldP f [] s = Inr s"
| "foldP f (x # xs) s = bindP (f x s) (foldP f xs)"

text \<open>The slice read \<^verbatim>\<open>xs[i]\<close>.\<close>

definition idx :: "'a list \<Rightarrow> int \<Rightarrow> panic + 'a" where
  "idx xs i = (if 0 \<le> i \<and> i < int (length xs) then Inr (xs ! nat i) else Inl IndexOutOfRange)"

text \<open>The read \<^verbatim>\<open>pixels[r][c]\<close>: the row is fetched first, then the column.\<close>

definition at2 :: "'a list list \<Rightarrow> int \<Rightarrow> int \<Rightarrow> panic + 'a" where
  "at2 pixels r c = bindP (idx pixels r) (\<lambda>row. idx row c)"

text \<open>The write \<^verbatim>\<open>pixels[r][c].y = v\<close>.\<close>

definition set_y :: "GrayPixel list list \<Rightarrow> int \<Rightarrow> int \<Rightarrow> u8 \<Rightarrow> panic + GrayPixel list list" where
  "set_y pixels r c v =
     bindP (idx pixels r) (\<lambda>row.
     bindP (idx row c) (\<lambda>p.
       Inr (pixels[nat r := row[nat c := GrayPixel v (pix_a p)]])))"

section \<open>Hysteresis: neighbours of a pixel\<close>

text \<open>
  \<^verbatim>\<open>getAdjacentPixels\<close>. The bounds go through \<^verbatim>\<open>float64\<close> and \<^verbatim>\<open>math.Max\<close>,
  \<^verbatim>\<open>math.Min\<close> and back to \<^verbatim>\<open>int\<close>, which is exact for image coordinates.
  The two \<^verbatim>\<open>for\<close> statements run \<^verbatim>\<open>for i:=minY; i<maxY; i++\<close> and \<^verbatim>\<open>for j:=minX; j<maxX; j++\<close>,
  and \<^verbatim>\<open>result.Add\<close> is \<^const>\<open>insert\<close>.
\<close>

definition getAdjacentPixels :: "GrayPixel list list \<Rightarrow> int \<Rightarrow> int \<Rightarrow> panic + Point set" where
  "getAdjacentPixels pixels x y =
     bindP (idx pixels 0) (\<lambda>row0.
       let height = int (length pixels);
           width = int (length row0);
           minX = max 0 (x - 1);
           minY = max 0 (y - 1);
           maxX = min width (x + 1);
           maxY = min height (y + 1)
       in Inr (fold (\<lambda>i. fold (\<lambda>j result.
                   if i \<noteq> y \<and> j \<noteq> x then insert (Point j i) result else result)
                 [minX..maxX - 1])
               [minY..maxY - 1] {}))"

section \<open>Hysteresis: edge tracking\<close>

text \<open>
  \<^verbatim>\<open>edgeTracking\<close> mutates the image and the strong set in place; the model returns
  both. The argument \<open>weakIter\<close> is the sequence of points that \<^verbatim>\<open>weak.Iterator()\<close>
  delivers on its channel: the elements of the weak set in an order the set library does
  not fix. \<^verbatim>\<open>strong.Intersect(neighbours).Cardinality() > 0\<close> is read on the strong
  set as it is at that iteration.
\<close>

definition edgeTrackingStep ::
  "Point \<Rightarrow> GrayPixel list list \<times> Point set \<Rightarrow> panic + (GrayPixel list list \<times> Point set)" where
  "edgeTrackingStep weakPoint st =
     (case st of (pixels, strong) \<Rightarrow>
        bindP (getAdjacentPixels pixels (ptX weakPoint) (ptY weakPoint)) (\<lambda>neighbours.
          let strong' = (if card (strong \<inter> neighbours) > 0 then insert weakPoint strong
                         else strong)
          in bindP (set_y pixels (ptY weakPoint) (ptX weakPoint) 0) (\<lambda>pixels'.
               Inr (pixels', strong'))))"

definition edgeTracking ::
  "GrayPixel list list \<Rightarrow> Point set \<Rightarrow> Point list \<Rightarrow> panic + (GrayPixel list list \<times> Point set)" where
  "edgeTracking pixels strong weakIter = foldP edgeTrackingStep weakIter (pixels, strong)"

section \<open>Double threshold\<close>

text \<open>
  \<^verbatim>\<open>doublethreshold\<close> returns the two sets and zeroes pixels of its argument in place;
  the model returns the image as well. The inner loop bound \<^verbatim>\<open>len(pixels[0])\<close> is only
  evaluated when the outer loop runs, that is when the image has a row, and no write
  changes a length.
\<close>

definition doublethresholdStep ::
  "real \<Rightarrow> real \<Rightarrow> nat \<Rightarrow> nat \<Rightarrow> GrayPixel list list \<times> Point set \<times> Point set
     \<Rightarrow> panic + (GrayPixel list list \<times> Point set \<times> Point set)" where
  "doublethresholdStep high low y x st =
     (case st of (pixels, strong, weak) \<Rightarrow>
        bindP (at2 pixels (int y) (int x)) (\<lambda>p.
          let pixVal = real (unat (pix_y p)) in
          if pixVal > high then Inr (pixels, insert (Point (int x) (int y)) strong, weak)
          else if high > pixVal \<and> pixVal > low then
            Inr (pixels, strong, insert (Point (int x) (int y)) weak)
          else bindP (set_y pixels (int y) (int x) 0) (\<lambda>pixels'. Inr (pixels', strong, weak))))"

definition doublethreshold ::
  "GrayPixel list list \<Rightarrow> real \<Rightarrow> real \<Rightarrow> panic + (GrayPixel list list \<times> Point set \<times> Point set)" where
  "doublethreshold pixels high low =
     foldP (\<lambda>y. foldP (doublethresholdStep high low y) [0..<length (pixels ! 0)])
       [0..<length pixels] (pixels, {}, {})"

text \<open>\<^verbatim>\<open>maxPixelValue\<close>.\<close>

definition maxPixelValue :: "GrayPixel list list \<Rightarrow> panic + u8" where
  "maxPixelValue pixels =
     foldP (\<lambda>y. foldP (\<lambda>x mx. bindP (at2 pixels (int y) (int x)) (\<lambda>p.
                let pixVal = pix_y p in Inr (if pixVal > mx then pixVal else mx)))
              [0..<length (pixels ! 0)])
       [0..<length pixels] 0"

section \<open>Integer and floating-point primitives\<close>

text \<open>\<^verbatim>\<open>abs\<close> of the source.\<close>

definition abs_go :: "int \<Rightarrow> int" where
  "abs_go x = (if x < 0 then - x else x)"

text \<open>Go's integer division and remainder truncate towards zero.\<close>

definition go_div :: "int \<Rightarrow> int \<Rightarrow> int" where
  "go_div a b = (if (a < 0) = (b < 0) then \<bar>a\<bar> div \<bar>b\<bar> else - (\<bar>a\<bar> div \<bar>b\<bar>))"

definition go_mod :: "int \<Rightarrow> int \<Rightarrow> int" where
  "go_mod a b = a - b * go_div a b"

text \<open>
  The conversion \<^verbatim>\<open>uint8(f)\<close> of a \<^verbatim>\<open>float64\<close>: the fraction is discarded. There is
  no clamp in the source. When the integer part does not fit into eight bits the Go
  specification leaves the result to the implementation; the Go compiler converts to a
  32-bit integer and keeps the low eight bits, which is \<^const>\<open>word_of_int\<close> as long as
  the integer part fits into 32 bits (from \<open>2\<^sup>3\<^sup>1\<close> on the compiled code gives 0, the
  definition below does not). The values that this program converts are far below that
  limit: the gradient stage converts a number below 1443 (lemma \<open>sobelPixel_closed\<close>),
  and the blur the root of two squares of weighted means of gray values.
\<close>

definition uint8_of_float64 :: "real \<Rightarrow> u8" where
  "uint8_of_float64 f = word_of_int (if 0 \<le> f then \<lfloor>f\<rfloor> else \<lceil>f\<rceil>)"

text \<open>
  Vectors and matrices of the matrix library: a vector is the list of its elements, a
  matrix has its dimensions and its elements in row-major order. The constructors
  \<^verbatim>\<open>mat.NewVecDense\<close> and \<^verbatim>\<open>mat.NewDense\<close> panic on a dimension that is not positive and
  on a data slice of another length.
\<close>

type_synonym VecDense = "real list"

datatype Dense = Dense (mrows: int) (mcols: int) (mdata: "real list")

definition NewVecDense :: "int \<Rightarrow> real list \<Rightarrow> panic + VecDense" where
  "NewVecDense n data =
     (if n \<le> 0 then Inl MatrixLibraryPanic
      else if int (length data) \<noteq> n then Inl MatrixLibraryPanic
      else Inr data)"

definition NewDense :: "int \<Rightarrow> int \<Rightarrow> real list \<Rightarrow> panic + Dense" where
  "NewDense r c data =
     (if r \<le> 0 \<or> c \<le> 0 then Inl MatrixLibraryPanic
      else if int (length data) \<noteq> r * c then Inl MatrixLibraryPanic
      else Inr (Dense r c data))"

text \<open>\<^verbatim>\<open>m.At(y, x)\<close> on a matrix built by \<^const>\<open>NewDense\<close>, for indices inside its dimensions.\<close>

definition At :: "Dense \<Rightarrow> nat \<Rightarrow> nat \<Rightarrow> real" where
  "At m y x = mdata m ! (y * nat (mcols m) + x)"

definition SOBEL_X :: "real list" where
  "SOBEL_X = [1, 0, -1, 2, 0, -2, 1, 0, -1]"

definition SOBEL_Y :: "real list" where
  "SOBEL_Y = [1, 2, 1, 0, 0, 0, -1, -2, -1]"

text \<open>\<^verbatim>\<open>innerProduct\<close>: the loop index stays below both lengths.\<close>

definition innerProduct :: "VecDense \<Rightarrow> VecDense \<Rightarrow> panic + real" where
  "innerProduct pixels kern =
     (if length pixels \<noteq> length kern then Inl (Error ''length of given vectors must be equal'')
      else Inr (foldl (\<lambda>result i. result + pixels ! i * kern ! i) 0 [0..<length pixels]))"

text \<open>\<^verbatim>\<open>convolve\<close>.\<close>

definition convolve :: "Dense \<Rightarrow> Dense \<Rightarrow> panic + real" where
  "convolve m1 m2 =
     (if mrows m1 \<noteq> mrows m2 \<or> mcols m1 \<noteq> mcols m2 then
        Inl (Error ''invalid matrix dimensions for convolution operation'')
      else Inr (foldl (\<lambda>result y.
                  foldl (\<lambda>result x. result + At m1 y x * At m2 y x) result [0..<nat (mcols m1)])
                0 [0..<nat (mrows m1)]))"

text \<open>
  \<^verbatim>\<open>getPascalTriangleRow\<close> and \<^verbatim>\<open>normalizeVec\<close>. \<^verbatim>\<open>combin.Binomial\<close> is the binomial
  coefficient, for the rows whose coefficients the library's 64-bit integers hold (rows
  below 62; the pipeline asks for row 4); the vector has \<open>index + 1\<close> elements, so its
  constructor does not panic.
\<close>

definition getPascalTriangleRow :: "nat \<Rightarrow> VecDense" where
  "getPascalTriangleRow index = map (\<lambda>i. real (index choose i)) [0..<index + 1]"

definition normalizeVec :: "VecDense \<Rightarrow> VecDense" where
  "normalizeVec v =
     (let sum = foldl (\<lambda>sum i. sum + v ! i) 0 [0..<length v]
      in map (\<lambda>e. (1 / sum) * e) v)"

section \<open>Border-aware sampling\<close>

text \<open>\<^verbatim>\<open>getPixelVector\<close>.\<close>

definition getPixelVector ::
  "GrayPixel list list \<Rightarrow> int \<Rightarrow> int \<Rightarrow> int \<Rightarrow> direction \<Rightarrow> panic + VecDense" where
  "getPixelVector pixels posY posX len dir =
     (if go_mod len 2 = 0 then Inl (Error ''length must be odd number'')
      else
        let padding = go_div len 2 in
        bindP
          (case dir of
             HORIZONTAL \<Rightarrow>
               mapP (\<lambda>i.
                 bindP (idx pixels posY) (\<lambda>row.
                   let rowLength = int (length row) in
                   bindP (if i < 0 then at2 pixels posY (posX + abs_go i)
                          else if i \<ge> rowLength then
                            (let overlap = i - rowLength + 1 in at2 pixels posY (posX - overlap))
                          else at2 pixels posY i)
                     (\<lambda>currentPixel. Inr (real (unat (pix_y currentPixel))))))
                 [posX - padding..posX + padding]
           | VERTICAL \<Rightarrow>
               mapP (\<lambda>i.
                 let columnLength = int (length pixels) in
                 bindP (if i < 0 then at2 pixels (posY + abs_go i) posX
                        else if i \<ge> columnLength then
                          (let overlap = i - columnLength + 1 in at2 pixels (posY - overlap) posX)
                        else at2 pixels i posX)
                   (\<lambda>currentPixel. Inr (real (unat (pix_y currentPixel)))))
                 [posY - padding..posY + padding])
          (\<lambda>values. NewVecDense (int (length values)) values))"

text \<open>\<^verbatim>\<open>getSorroundingPixelMatrix\<close>.\<close>

definition getSorroundingPixelMatrix ::
  "GrayPixel list list \<Rightarrow> int \<Rightarrow> int \<Rightarrow> int \<Rightarrow> panic + Dense" where
  "getSorroundingPixelMatrix pixels posY posX len =
     (if go_mod len 2 = 0 then Inl (Error ''length must be odd number'')
      else
        let padding = go_div len 2;
            minX = posX - padding;
            minY = posY - padding;
            maxX = posX + padding;
            maxY = posY + padding;
            height = int (length pixels)
        in
        bindP (idx pixels 0) (\<lambda>row0.
          let width = int (length row0) in
          bindP
            (mapP (\<lambda>y.
               let curY = (if y < 0 then posY + abs_go y
                           else if y \<ge> height then (let overlap = y - height + 1 in posY - overlap)
                           else y)
               in mapP (\<lambda>x.
                    let curX = (if x < 0 then posX + abs_go x
                                else if x \<ge> width then (let overlap = x - width + 1 in posX - overlap)
                                else x)
                    in bindP (at2 pixels curY curX)
                         (\<lambda>currentPixel. Inr (real (unat (pix_y currentPixel)))))
                    [minX..maxX])
               [minY..maxY])
            (\<lambda>rows. NewDense len len (concat rows))))"

section \<open>Blur and gradient stages\<close>

text \<open>\<^verbatim>\<open>gaussianBlur\<close>; the kernel size is a \<^verbatim>\<open>uint\<close>.\<close>

definition gaussianBlurPixel :: "GrayPixel list list \<Rightarrow> VecDense \<Rightarrow> nat \<Rightarrow> nat \<Rightarrow> panic + GrayPixel" where
  "gaussianBlurPixel pixels kern y x =
     bindP (getPixelVector pixels (int y) (int x) (int (length kern)) VERTICAL) (\<lambda>vecVert.
     bindP (getPixelVector pixels (int y) (int x) (int (length kern)) HORIZONTAL) (\<lambda>vecHor.
     bindP (innerProduct vecVert kern) (\<lambda>verticalSum.
     bindP (innerProduct vecHor kern) (\<lambda>horizontalSum.
       let combinedRes =
             uint8_of_float64 (sqrt (verticalSum * verticalSum + horizontalSum * horizontalSum))
       in Inr (GrayPixel combinedRes 255)))))"

definition gaussianBlur :: "GrayPixel list list \<Rightarrow> nat \<Rightarrow> panic + GrayPixel list list" where
  "gaussianBlur pixels kernelSize =
     (if kernelSize mod 2 = 0 then Inl (Error ''size of kernel must be odd'')
      else
        let kern = normalizeVec (getPascalTriangleRow (kernelSize - 1)) in
        mapP (\<lambda>y. mapP (gaussianBlurPixel pixels kern y) [0..<length (pixels ! y)])
          [0..<length pixels])"

text \<open>
  \<^verbatim>\<open>sobel\<close>: the body of the inner loop gives the result pixel and the angle.
  \<^verbatim>\<open>math.Pow(v, 2)\<close> is the square and \<^verbatim>\<open>math.Atan\<close> is \<^const>\<open>arctan\<close>.
\<close>

definition sobelPixel ::
  "GrayPixel list list \<Rightarrow> Dense \<Rightarrow> Dense \<Rightarrow> nat \<Rightarrow> nat \<Rightarrow> panic + (GrayPixel \<times> real)" where
  "sobelPixel pixels sobel_X sobel_Y y x =
     bindP (getSorroundingPixelMatrix pixels (int y) (int x) 3) (\<lambda>imagePane.
     bindP (convolve imagePane sobel_X) (\<lambda>sobelRes_X.
     bindP (convolve imagePane sobel_Y) (\<lambda>sobelRes_Y.
       let combinedRes = uint8_of_float64 (sqrt (sobelRes_X ^ 2 + sobelRes_Y ^ 2));
           angle = (if sobelRes_X = 0 \<or> sobelRes_Y = 0 then 0
                    else arctan (sobelRes_Y / sobelRes_X));
           angle = angle * (180 / pi)
       in Inr (GrayPixel combinedRes 255, angle))))"

definition sobel :: "GrayPixel list list \<Rightarrow> panic + (GrayPixel list list \<times> real list list)" where
  "sobel pixels =
     bindP (NewDense 3 3 SOBEL_X) (\<lambda>sobel_X.
     bindP (NewDense 3 3 SOBEL_Y) (\<lambda>sobel_Y.
     bindP (mapP (\<lambda>y. mapP (sobelPixel pixels sobel_X sobel_Y y) [0..<length (pixels ! y)])
              [0..<length pixels])
       (\<lambda>rows. Inr (map (map fst) rows, map (map snd) rows))))"

section \<open>Non-maximum suppression\<close>

text \<open>
  \<^verbatim>\<open>getPixelInGradientDirection\<close>. Its chain of five angle tests, which selects the
  coordinates \<open>(pY, pX, qY, qX)\<close> of the two neighbours or panics, is \<open>gradientNeighbours\<close>;
  the four border tests and the two reads follow in the function itself.
\<close>

definition gradientNeighbours :: "real \<Rightarrow> int \<Rightarrow> int \<Rightarrow> panic + (int \<times> int \<times> int \<times> int)" where
  "gradientNeighbours dirVal x y =
     (if dirVal \<ge> - 90 \<and> dirVal < - 67.5 then Inr (y - 1, x, y + 1, x)
      else if dirVal \<ge> - 67.5 \<and> dirVal < - 22.5 then Inr (y - 1, x + 1, y + 1, x - 1)
      else if dirVal \<ge> - 22.5 \<and> dirVal < 22.5 then Inr (y, x + 1, y, x - 1)
      else if dirVal \<ge> 22.5 \<and> dirVal < 67.5 then Inr (y + 1, x + 1, y - 1, x - 1)
      else if dirVal \<ge> 67.5 \<and> dirVal \<le> 90 then Inr (y + 1, x, y - 1, x)
      else Inl (Error ''invalid value for direction, out of range [-90, 90]''))"

definition getPixelInGradientDirection ::
  "GrayPixel list list \<Rightarrow> real list list \<Rightarrow> int \<Rightarrow> int \<Rightarrow> panic + (GrayPixel \<times> GrayPixel)" where
  "getPixelInGradientDirection pixels directions x y =
     (let height = int (length pixels) in
      bindP (idx pixels 0) (\<lambda>row0.
        let width = int (length row0) in
        bindP (at2 directions y x) (\<lambda>dirVal.
          bindP (gradientNeighbours dirVal x y) (\<lambda>(pY, pX, qY, qX).
            let pY = (if pY < 0 \<or> pY \<ge> height then y else pY);
                pX = (if pX < 0 \<or> pX \<ge> width then x else pX);
                qY = (if qY < 0 \<or> qY \<ge> height then y else qY);
                qX = (if qX < 0 \<or> qX \<ge> width then x else qX)
            in bindP (at2 pixels pY pX) (\<lambda>p.
               bindP (at2 pixels qY qX) (\<lambda>q. Inr (p, q)))))))"

text \<open>\<^verbatim>\<open>nonMaximumSuppression\<close>.\<close>

definition nonMaximumSuppressionPixel ::
  "GrayPixel list list \<Rightarrow> real list list \<Rightarrow> nat \<Rightarrow> nat \<Rightarrow> panic + GrayPixel" where
  "nonMaximumSuppressionPixel pixels directions y x =
     bindP (at2 pixels (int y) (int x)) (\<lambda>r.
     bindP (getPixelInGradientDirection pixels directions (int x) (int y)) (\<lambda>(p, q).
       if pix_y p > pix_y r \<or> pix_y q > pix_y r then Inr (GrayPixel 0 255) else Inr r))"

definition nonMaximumSuppression ::
  "GrayPixel list list \<Rightarrow> real list list \<Rightarrow> panic + GrayPixel list list" where
  "nonMaximumSuppression pixels directions =
     (if length pixels \<noteq> length directions then
        Inl (Error ''dimensions of pixel and direction array must match'')
      else
        bindP (idx pixels 0) (\<lambda>prow0.
        bindP (idx directions 0) (\<lambda>drow0.
          if length prow0 \<noteq> length drow0 then
            Inl (Error ''dimensions of pixel and direction array must match'')
          else
            mapP (\<lambda>y. mapP (nonMaximumSuppressionPixel pixels directions y) [0..<length prow0])
              [0..<length pixels])))"

section \<open>The pipeline\<close>

text \<open>
  \<^verbatim>\<open>CannyEdgeDetect\<close>. The parameter \<open>iter\<close> stands for \<^verbatim>\<open>weak.Iterator()\<close>: it gives
  the order in which the elements of the weak set are visited. The parameter \<open>fmul\<close>
  stands for the multiplication \<^verbatim>\<open>*\<close> of two \<^verbatim>\<open>float64\<close> values, which rounds the product.
\<close>

definition CannyEdgeDetect ::
  "(real \<Rightarrow> real \<Rightarrow> real) \<Rightarrow> (Point set \<Rightarrow> Point list) \<Rightarrow> GrayPixel list list \<Rightarrow> bool
     \<Rightarrow> real \<Rightarrow> real \<Rightarrow> panic + GrayPixel list list" where
  "CannyEdgeDetect fmul iter pixels blur minRatio maxRatio =
     bindP (if blur then gaussianBlur pixels 5 else Inr pixels) (\<lambda>pixels.
     bindP (sobel pixels) (\<lambda>(pixels, angles).
     bindP (nonMaximumSuppression pixels angles) (\<lambda>pixels.
     bindP (maxPixelValue pixels) (\<lambda>mx.
       let high = fmul maxRatio (real (unat mx));
           low = fmul minRatio (real (unat mx))
       in bindP (doublethreshold pixels high low) (\<lambda>(pixels, strong, weak).
          bindP (edgeTracking pixels strong (iter weak)) (\<lambda>(pixels, strong).
            Inr pixels))))))"


section \<open>Notions used to state the results\<close>

text \<open>
  \<open>blacken S pixels\<close> is the image \<open>pixels\<close> with the gray value of every pixel whose
  coordinate is in \<open>S\<close> set to 0 and everything else unchanged; \<open>inBounds\<close> says that
  \<^verbatim>\<open>pixels[Y][X]\<close> exists.
\<close>

definition blacken :: "Point set \<Rightarrow> GrayPixel list list \<Rightarrow> GrayPixel list list" where
  "blacken S pixels =
     map (\<lambda>r. map (\<lambda>c. if Point (int c) (int r) \<in> S then GrayPixel 0 (pix_a (pixels ! r ! c))
                         else pixels ! r ! c)
                [0..<length (pixels ! r)])
       [0..<length pixels]"

definition inBounds :: "GrayPixel list list \<Rightarrow> Point \<Rightarrow> bool" where
  "inBounds pixels p \<longleftrightarrow>
     0 \<le> ptY p \<and> ptY p < int (length pixels) \<and>
     0 \<le> ptX p \<and> ptX p < int (length (pixels ! nat (ptY p)))"

text \<open>
  The gray value of a pixel as the \<^verbatim>\<open>float64\<close> that \<^verbatim>\<open>doublethreshold\<close> compares, the
  point of a cell \<open>(row, column)\<close>, and the two comparisons of \<^verbatim>\<open>doublethreshold\<close>.
\<close>

definition pixVal :: "GrayPixel list list \<Rightarrow> nat \<Rightarrow> nat \<Rightarrow> real" where
  "pixVal pixels y x = real (unat (pix_y (pixels ! y ! x)))"

definition cellPoint :: "nat \<times> nat \<Rightarrow> Point" where
  "cellPoint c = Point (int (snd c)) (int (fst c))"

definition isStrong :: "real \<Rightarrow> GrayPixel list list \<Rightarrow> nat \<times> nat \<Rightarrow> bool" where
  "isStrong high pixels c \<longleftrightarrow> pixVal pixels (fst c) (snd c) > high"

definition isWeak :: "real \<Rightarrow> real \<Rightarrow> GrayPixel list list \<Rightarrow> nat \<times> nat \<Rightarrow> bool" where
  "isWeak high low pixels c \<longleftrightarrow>
     high > pixVal pixels (fst c) (snd c) \<and> pixVal pixels (fst c) (snd c) > low"


section \<open>Helper lemmas\<close>

lemma idx_in_range: "0 \<le> i \<Longrightarrow> i < int (length xs) \<Longrightarrow> idx xs i = Inr (xs ! nat i)"
  by (simp add: idx_def)

lemma idx_Inr_iff: "idx xs i = Inr v \<longleftrightarrow> 0 \<le> i \<and> i < int (length xs) \<and> v = xs ! nat i"
  by (auto simp: idx_def)

lemma bindP_Inr_iff: "bindP m f = Inr r \<longleftrightarrow> (\<exists>v. m = Inr v \<and> f v = Inr r)"
  by (cases m) auto

text \<open>The index range of each loop of \<^const>\<open>getAdjacentPixels\<close> at an in-bounds centre.\<close>

lemma adjacent_loop_range:
  fixes x n :: int
  assumes "0 \<le> x" and "x < n"
  shows "[max 0 (x - 1)..min n (x + 1) - 1] = (if 1 \<le> x then [x - 1, x] else [x])"
proof -
  from assms have upper: "min n (x + 1) - 1 = x" by simp
  show ?thesis
  proof (cases "1 \<le> x")
    case True
    then have "max 0 (x - 1) = x - 1" by simp
    moreover have "[x - 1..x] = [x - 1, x]" by (simp add: upto_rec1)
    ultimately show ?thesis using True upper by simp
  next
    case False
    with assms have "x = 0" by simp
    then show ?thesis using upper by simp
  qed
qed

subsection \<open>Iteration and image writes\<close>

lemma foldP_append: "foldP f (xs @ ys) s = bindP (foldP f xs s) (foldP f ys)"
proof (induction xs arbitrary: s)
  case Nil
  show ?case by simp
next
  case (Cons x xs)
  show ?case by (cases "f x s") (simp_all add: Cons.IH)
qed

lemma set_y_Inr_iff:
  "set_y pixels r c v = Inr pixels' \<longleftrightarrow>
     0 \<le> r \<and> r < int (length pixels) \<and> 0 \<le> c \<and> c < int (length (pixels ! nat r)) \<and>
     pixels' = pixels[nat r := (pixels ! nat r)[nat c := GrayPixel v (pix_a (pixels ! nat r ! nat c))]]"
  by (auto simp: set_y_def bindP_Inr_iff idx_Inr_iff)

lemma set_y_Inl: "set_y pixels r c v = Inl e \<Longrightarrow> e = IndexOutOfRange"
  by (auto simp: set_y_def idx_def split: if_splits)

lemma set_y_dims: "set_y pixels r c v = Inr pixels' \<Longrightarrow> map length pixels' = map length pixels"
  by (auto simp: set_y_Inr_iff map_update list_update_same_conv)

lemma getAdjacentPixels_dims:
  assumes "map length pixels' = map length pixels"
  shows "getAdjacentPixels pixels' x y = getAdjacentPixels pixels x y"
proof (cases pixels)
  case Nil
  with assms show ?thesis by (simp add: getAdjacentPixels_def idx_def)
next
  case (Cons r rs)
  with assms obtain r' rs' where p': "pixels' = r' # rs'" "length r' = length r" "length rs' = length rs"
    by (cases pixels') (auto dest: map_eq_imp_length_eq)
  with Cons show ?thesis by (simp add: getAdjacentPixels_def idx_def)
qed

lemma getAdjacentPixels_finite: "getAdjacentPixels pixels x y = Inr ns \<Longrightarrow> finite ns"
proof -
  have inner: "finite (fold (\<lambda>j result. if i \<noteq> y \<and> j \<noteq> x then insert (Point j i) result else result) js A)"
    if "finite A" for i js A using that by (induction js arbitrary: A) auto
  have outer: "finite (fold (\<lambda>i. fold (\<lambda>j result. if i \<noteq> y \<and> j \<noteq> x then insert (Point j i) result else result) js) is A)"
    if "finite A" for js "is" A using that by (induction "is" arbitrary: A) (auto simp: inner)
  assume "getAdjacentPixels pixels x y = Inr ns"
  then show ?thesis
    by (auto simp: getAdjacentPixels_def bindP_Inr_iff Let_def outer)
qed

lemma edgeTrackingStep_Inr_iff:
  "edgeTrackingStep w (pixels, strong) = Inr (pixels', strong') \<longleftrightarrow>
     (\<exists>ns. getAdjacentPixels pixels (ptX w) (ptY w) = Inr ns \<and>
           strong' = (if strong \<inter> ns \<noteq> {} then insert w strong else strong) \<and>
           set_y pixels (ptY w) (ptX w) 0 = Inr pixels')"
proof (cases "getAdjacentPixels pixels (ptX w) (ptY w)")
  case (Inl e)
  then show ?thesis by (simp add: edgeTrackingStep_def)
next
  case (Inr ns)
  then have "finite ns" by (rule getAdjacentPixels_finite)
  then have c: "card (strong \<inter> ns) > 0 \<longleftrightarrow> strong \<inter> ns \<noteq> {}"
    by (simp add: card_gt_0_iff)
  show ?thesis
  proof (cases "set_y pixels (ptY w) (ptX w) 0")
    case (Inl e)
    with Inr show ?thesis by (simp add: edgeTrackingStep_def Let_def)
  next
    case r: (Inr p1)
    with Inr c show ?thesis by (simp add: edgeTrackingStep_def Let_def) blast
  qed
qed

lemma edgeTracking_Nil: "edgeTracking pixels strong [] = Inr (pixels, strong)"
  by (simp add: edgeTracking_def)

lemma edgeTracking_snoc:
  "edgeTracking pixels strong (ws @ [w]) = bindP (edgeTracking pixels strong ws) (edgeTrackingStep w)"
proof -
  have "foldP edgeTrackingStep [w] s = edgeTrackingStep w s" for s
    by (cases "edgeTrackingStep w s") simp_all
  then have "foldP edgeTrackingStep [w] = edgeTrackingStep w" by blast
  then show ?thesis by (simp add: edgeTracking_def foldP_append)
qed

lemma edgeTracking_append:
  "edgeTracking pixels strong (ws @ vs) =
     bindP (edgeTracking pixels strong ws) (\<lambda>(pixels', strong'). edgeTracking pixels' strong' vs)"
  by (simp add: edgeTracking_def foldP_append split_def)

lemma edgeTracking_invariant:
  "edgeTracking pixels strong ws = Inr (pixels', strong') \<Longrightarrow>
     map length pixels' = map length pixels \<and> strong \<subseteq> strong' \<and> strong' \<subseteq> strong \<union> set ws"
proof (induction ws arbitrary: pixels' strong' rule: rev_induct)
  case Nil
  then show ?case by (simp add: edgeTracking_Nil)
next
  case (snoc w ws)
  from snoc.prems obtain p1 s1 where
    mid: "edgeTracking pixels strong ws = Inr (p1, s1)" and
    step: "edgeTrackingStep w (p1, s1) = Inr (pixels', strong')"
    by (auto simp: edgeTracking_snoc bindP_Inr_iff)
  from snoc.IH [OF mid] have ih: "map length p1 = map length pixels" "strong \<subseteq> s1" "s1 \<subseteq> strong \<union> set ws"
    by auto
  from step obtain ns where
    st: "strong' = (if s1 \<inter> ns \<noteq> {} then insert w s1 else s1)"
    and sy: "set_y p1 (ptY w) (ptX w) 0 = Inr pixels'"
    unfolding edgeTrackingStep_Inr_iff by blast
  from sy have "map length pixels' = map length p1" by (rule set_y_dims)
  moreover from st have "s1 \<subseteq> strong'" "strong' \<subseteq> insert w s1"
    by (simp_all add: subset_insertI)
  ultimately show ?case using ih by auto
qed

lemma length_blacken [simp]: "length (blacken S pixels) = length pixels"
  by (simp add: blacken_def)

lemma length_nth_blacken [simp]:
  "r < length pixels \<Longrightarrow> length (blacken S pixels ! r) = length (pixels ! r)"
  by (simp add: blacken_def)

lemma nth_nth_blacken:
  "r < length pixels \<Longrightarrow> c < length (pixels ! r) \<Longrightarrow>
     blacken S pixels ! r ! c =
       (if Point (int c) (int r) \<in> S then GrayPixel 0 (pix_a (pixels ! r ! c)) else pixels ! r ! c)"
  by (simp add: blacken_def)

lemma map_length_blacken [simp]: "map length (blacken S pixels) = map length pixels"
  by (rule nth_equalityI) simp_all

lemma blacken_empty [simp]: "blacken {} pixels = pixels"
proof (rule nth_equalityI)
  show "length (blacken {} pixels) = length pixels" by simp
next
  fix r assume "r < length (blacken {} pixels)"
  then have r: "r < length pixels" by simp
  show "blacken {} pixels ! r = pixels ! r"
    by (rule nth_equalityI) (simp_all add: r nth_nth_blacken)
qed

lemma blacken_blacken: "blacken A (blacken B pixels) = blacken (A \<union> B) pixels"
proof (rule nth_equalityI)
  show "length (blacken A (blacken B pixels)) = length (blacken (A \<union> B) pixels)" by simp
next
  fix r assume "r < length (blacken A (blacken B pixels))"
  then have r: "r < length pixels" by simp
  show "blacken A (blacken B pixels) ! r = blacken (A \<union> B) pixels ! r"
  proof (rule nth_equalityI)
    show "length (blacken A (blacken B pixels) ! r) = length (blacken (A \<union> B) pixels ! r)"
      using r by simp
  next
    fix c assume "c < length (blacken A (blacken B pixels) ! r)"
    then have c: "c < length (pixels ! r)" using r by simp
    show "blacken A (blacken B pixels) ! r ! c = blacken (A \<union> B) pixels ! r ! c"
      using r c by (simp add: nth_nth_blacken)
  qed
qed

lemma inBounds_blacken [simp]: "inBounds (blacken S pixels) p = inBounds pixels p"
  by (auto simp: inBounds_def)

lemma set_y_zero:
  "set_y pixels r c 0 =
     (if inBounds pixels (Point c r) then Inr (blacken {Point c r} pixels) else Inl IndexOutOfRange)"
proof (cases "inBounds pixels (Point c r)")
  case False
  then show ?thesis by (auto simp: inBounds_def set_y_def idx_def)
next
  case True
  then have b: "0 \<le> r" "r < int (length pixels)" "0 \<le> c" "c < int (length (pixels ! nat r))"
    by (simp_all add: inBounds_def)
  let ?upd = "pixels[nat r := (pixels ! nat r)[nat c := GrayPixel 0 (pix_a (pixels ! nat r ! nat c))]]"
  have "?upd = blacken {Point c r} pixels"
  proof (rule nth_equalityI)
    show "length ?upd = length (blacken {Point c r} pixels)" by simp
  next
    fix i assume "i < length ?upd"
    then have i: "i < length pixels" by simp
    show "?upd ! i = blacken {Point c r} pixels ! i"
    proof (rule nth_equalityI)
      show "length (?upd ! i) = length (blacken {Point c r} pixels ! i)"
        using i b by (cases "i = nat r") (simp_all add: nth_list_update)
    next
      fix j assume "j < length (?upd ! i)"
      then have j: "j < length (pixels ! i)"
        using i b by (cases "i = nat r") (simp_all add: nth_list_update)
      show "?upd ! i ! j = blacken {Point c r} pixels ! i ! j"
        using i j b by (auto simp: nth_nth_blacken nth_list_update)
    qed
  qed
  with True b show ?thesis by (simp add: set_y_def idx_def)
qed

lemma blackening_loop:
  "foldP (\<lambda>w p. set_y p (ptY w) (ptX w) 0) ws pixels =
     (if \<forall>w\<in>set ws. inBounds pixels w then Inr (blacken (set ws) pixels) else Inl IndexOutOfRange)"
proof (induction ws arbitrary: pixels)
  case Nil
  show ?case by simp
next
  case (Cons w ws)
  let ?f = "\<lambda>w p. set_y p (ptY w) (ptX w) 0"
  have unfold: "foldP ?f (w # ws) pixels = bindP (set_y pixels (ptY w) (ptX w) 0) (foldP ?f ws)"
    by simp
  have head: "set_y pixels (ptY w) (ptX w) 0 =
      (if inBounds pixels w then Inr (blacken {w} pixels) else Inl IndexOutOfRange)"
    using set_y_zero [of pixels "ptY w" "ptX w"] by simp
  show ?case
  proof (cases "inBounds pixels w")
    case False
    then show ?thesis unfolding unfold head by simp
  next
    case True
    have "foldP ?f (w # ws) pixels = foldP ?f ws (blacken {w} pixels)"
      unfolding unfold head using True by simp
    also have "\<dots> = (if \<forall>v\<in>set ws. inBounds pixels v
                     then Inr (blacken (set ws \<union> {w}) pixels) else Inl IndexOutOfRange)"
      unfolding Cons.IH by (simp add: blacken_blacken)
    finally show ?thesis using True by simp
  qed
qed

lemma getAdjacentPixels_Inl: "getAdjacentPixels pixels x y = Inl e \<Longrightarrow> pixels = [] \<and> e = IndexOutOfRange"
  by (cases pixels) (simp_all add: getAdjacentPixels_def idx_def Let_def)

lemma edgeTracking_Cons:
  "edgeTracking pixels strong (w # ws) =
     bindP (edgeTrackingStep w (pixels, strong)) (\<lambda>(pixels', strong'). edgeTracking pixels' strong' ws)"
  by (cases "edgeTrackingStep w (pixels, strong)") (auto simp: edgeTracking_def)

lemma edgeTracking_image:
  "map_sum id fst (edgeTracking pixels strong ws) =
     foldP (\<lambda>w p. set_y p (ptY w) (ptX w) 0) ws pixels"
proof (induction ws arbitrary: pixels strong)
  case Nil
  show ?case by (simp add: edgeTracking_Nil)
next
  case (Cons w ws)
  show ?case
  proof (cases "getAdjacentPixels pixels (ptX w) (ptY w)")
    case (Inl e)
    then have "pixels = []" "e = IndexOutOfRange" by (auto dest: getAdjacentPixels_Inl)
    moreover have "set_y [] (ptY w) (ptX w) 0 = Inl IndexOutOfRange"
      by (simp add: set_y_def idx_def)
    ultimately show ?thesis
      using Inl by (simp add: edgeTracking_Cons edgeTrackingStep_def)
  next
    case (Inr ns)
    show ?thesis
    proof (cases "set_y pixels (ptY w) (ptX w) 0")
      case (Inl e)
      with Inr show ?thesis by (simp add: edgeTracking_Cons edgeTrackingStep_def Let_def)
    next
      case r: (Inr p1)
      with Inr show ?thesis
        by (simp add: edgeTracking_Cons edgeTrackingStep_def Let_def Cons.IH [unfolded id_def])
    qed
  qed
qed

lemma edgeTracking_image_order:
  assumes "set ws1 = set ws2"
  shows "map_sum id fst (edgeTracking pixels strong ws1) = map_sum id fst (edgeTracking pixels strong ws2)"
  by (simp add: edgeTracking_image blackening_loop assms)

subsection \<open>The double-threshold loop in closed form\<close>

lemma foldP_map: "foldP f (map h xs) s = foldP (\<lambda>x. f (h x)) xs s"
proof (induction xs arbitrary: s)
  case Nil
  show ?case by simp
next
  case (Cons x xs)
  show ?case by (cases "f (h x) s") (simp_all add: Cons.IH)
qed

lemma foldP_nested:
  "foldP (\<lambda>y. foldP (f y) xs) ys s = foldP (\<lambda>c. f (fst c) (snd c)) (List.product ys xs) s"
proof (induction ys arbitrary: s)
  case Nil
  show ?case by simp
next
  case (Cons y ys)
  show ?case
    by (cases "foldP (f y) xs s") (simp_all add: foldP_append foldP_map Cons.IH)
qed

lemma inj_cellPoint: "cellPoint c = cellPoint d \<longleftrightarrow> c = d"
  by (cases c; cases d) (auto simp: cellPoint_def)

lemma pixVal_blacken_other:
  assumes "fst c < length pixels" "snd c < length (pixels ! fst c)" "c \<noteq> c0"
  shows "pixVal (blacken {cellPoint c0} pixels) (fst c) (snd c) = pixVal pixels (fst c) (snd c)"
proof -
  have "Point (int (snd c)) (int (fst c)) = cellPoint c" by (simp add: cellPoint_def)
  with assms(3) have "Point (int (snd c)) (int (fst c)) \<notin> {cellPoint c0}"
    by (simp add: inj_cellPoint)
  with assms(1,2) show ?thesis by (simp add: pixVal_def nth_nth_blacken)
qed

lemma doublethresholdStep_cell:
  assumes "fst c < length pixels" "snd c < length (pixels ! fst c)"
  shows "doublethresholdStep high low (fst c) (snd c) (pixels, S, W) =
           Inr (if isStrong high pixels c then (pixels, insert (cellPoint c) S, W)
                else if isWeak high low pixels c then (pixels, S, insert (cellPoint c) W)
                else (blacken {cellPoint c} pixels, S, W))"
proof -
  have rd: "at2 pixels (int (fst c)) (int (snd c)) = Inr (pixels ! fst c ! snd c)"
    using assms by (simp add: at2_def idx_def)
  have ib: "inBounds pixels (Point (int (snd c)) (int (fst c)))"
    using assms by (simp add: inBounds_def)
  show ?thesis
    unfolding doublethresholdStep_def prod.case rd bindP.simps Let_def
    by (simp add: isStrong_def isWeak_def pixVal_def set_y_zero ib cellPoint_def)
qed

lemma doublethreshold_cells:
  assumes "distinct cs"
    and "\<forall>c\<in>set cs. fst c < length pixels \<and> snd c < length (pixels ! fst c)"
  shows "foldP (\<lambda>c. doublethresholdStep high low (fst c) (snd c)) cs (pixels, S, W) =
           Inr (blacken (cellPoint ` {c \<in> set cs. \<not> isStrong high pixels c \<and> \<not> isWeak high low pixels c}) pixels,
                S \<union> cellPoint ` {c \<in> set cs. isStrong high pixels c},
                W \<union> cellPoint ` {c \<in> set cs. \<not> isStrong high pixels c \<and> isWeak high low pixels c})"
  using assms
proof (induction cs arbitrary: pixels S W)
  case Nil
  show ?case by simp
next
  case (Cons c cs)
  from Cons.prems have c: "fst c < length pixels" "snd c < length (pixels ! fst c)"
    and notin: "c \<notin> set cs" and dist: "distinct cs"
    and rest: "\<forall>d\<in>set cs. fst d < length pixels \<and> snd d < length (pixels ! fst d)"
    by simp_all
  let ?step = "\<lambda>c. doublethresholdStep high low (fst c) (snd c)"
  have unfold: "foldP ?step (c # cs) (pixels, S, W) =
                  bindP (doublethresholdStep high low (fst c) (snd c) (pixels, S, W)) (foldP ?step cs)"
    by simp
  consider (strong) "isStrong high pixels c"
    | (weak) "\<not> isStrong high pixels c" "isWeak high low pixels c"
    | (zero) "\<not> isStrong high pixels c" "\<not> isWeak high low pixels c"
    by blast
  then show ?case
  proof cases
    case strong
    have "foldP ?step (c # cs) (pixels, S, W) = foldP ?step cs (pixels, insert (cellPoint c) S, W)"
      unfolding unfold doublethresholdStep_cell [OF c] using strong by simp
    also note Cons.IH [OF dist rest]
    finally show ?thesis using strong notin by (auto intro!: arg_cong2 [where f = blacken])
  next
    case weak
    have "foldP ?step (c # cs) (pixels, S, W) = foldP ?step cs (pixels, S, insert (cellPoint c) W)"
      unfolding unfold doublethresholdStep_cell [OF c] using weak by simp
    also note Cons.IH [OF dist rest]
    finally show ?thesis using weak notin by (auto intro!: arg_cong2 [where f = blacken])
  next
    case zero
    let ?p1 = "blacken {cellPoint c} pixels"
    have rest1: "\<forall>d\<in>set cs. fst d < length ?p1 \<and> snd d < length (?p1 ! fst d)"
      using rest by simp
    have same: "pixVal ?p1 (fst d) (snd d) = pixVal pixels (fst d) (snd d)" if "d \<in> set cs" for d
      using that rest notin by (intro pixVal_blacken_other) auto
    have sets: "{d \<in> set cs. isStrong high ?p1 d} = {d \<in> set cs. isStrong high pixels d}"
      "{d \<in> set cs. \<not> isStrong high ?p1 d \<and> isWeak high low ?p1 d}
         = {d \<in> set cs. \<not> isStrong high pixels d \<and> isWeak high low pixels d}"
      "{d \<in> set cs. \<not> isStrong high ?p1 d \<and> \<not> isWeak high low ?p1 d}
         = {d \<in> set cs. \<not> isStrong high pixels d \<and> \<not> isWeak high low pixels d}"
      by (rule Collect_cong; simp add: isStrong_def isWeak_def same cong: conj_cong)+
    have "foldP ?step (c # cs) (pixels, S, W) = foldP ?step cs (?p1, S, W)"
      unfolding unfold doublethresholdStep_cell [OF c] using zero by simp
    also note Cons.IH [OF dist rest1]
    finally have "foldP ?step (c # cs) (pixels, S, W) =
        Inr (blacken (cellPoint ` {d \<in> set cs. \<not> isStrong high pixels d \<and> \<not> isWeak high low pixels d} \<union> {cellPoint c}) pixels,
             S \<union> cellPoint ` {d \<in> set cs. isStrong high pixels d},
             W \<union> cellPoint ` {d \<in> set cs. \<not> isStrong high pixels d \<and> isWeak high low pixels d})"
      unfolding sets blacken_blacken .
    moreover have "cellPoint ` {d \<in> set cs. \<not> isStrong high pixels d \<and> \<not> isWeak high low pixels d} \<union> {cellPoint c}
         = cellPoint ` {d \<in> set (c # cs). \<not> isStrong high pixels d \<and> \<not> isWeak high low pixels d}"
      using zero by auto
    moreover have "{d \<in> set cs. isStrong high pixels d} = {d \<in> set (c # cs). isStrong high pixels d}"
      "{d \<in> set cs. \<not> isStrong high pixels d \<and> isWeak high low pixels d}
          = {d \<in> set (c # cs). \<not> isStrong high pixels d \<and> isWeak high low pixels d}"
      using zero by auto
    ultimately show ?thesis by simp
  qed
qed

lemma doublethreshold_closed_form:
  assumes rect: "\<forall>row\<in>set pixels. length row = length (pixels ! 0)"
  shows "doublethreshold pixels high low =
     Inr (blacken (cellPoint ` {c \<in> {..<length pixels} \<times> {..<length (pixels ! 0)}.
                      \<not> isStrong high pixels c \<and> \<not> isWeak high low pixels c}) pixels,
          cellPoint ` {c \<in> {..<length pixels} \<times> {..<length (pixels ! 0)}. isStrong high pixels c},
          cellPoint ` {c \<in> {..<length pixels} \<times> {..<length (pixels ! 0)}.
                      \<not> isStrong high pixels c \<and> isWeak high low pixels c})"
proof -
  let ?cs = "List.product [0..<length pixels] [0..<length (pixels ! 0)]"
  have set_cs: "set ?cs = {..<length pixels} \<times> {..<length (pixels ! 0)}"
    by (auto simp: lessThan_def)
  have "distinct ?cs" by (simp add: distinct_product)
  moreover have "\<forall>c\<in>set ?cs. fst c < length pixels \<and> snd c < length (pixels ! fst c)"
    using rect by auto
  ultimately show ?thesis
    unfolding doublethreshold_def foldP_nested
    using doublethreshold_cells [of ?cs pixels high low "{}" "{}"]
    unfolding set_cs by simp
qed

subsection \<open>Grids built by a nested loop\<close>

lemma at2_in_range:
  assumes "0 \<le> r" "r < int (length pixels)" "0 \<le> c" "c < int (length (pixels ! nat r))"
  shows "at2 pixels r c = Inr (pixels ! nat r ! nat c)"
  using assms by (simp add: at2_def idx_def)

lemma mapP_Inr_iff:
  "mapP f xs = Inr ys \<longleftrightarrow> length ys = length xs \<and> (\<forall>i<length xs. f (xs ! i) = Inr (ys ! i))"
proof (induction xs arbitrary: ys)
  case Nil
  show ?case by auto
next
  case (Cons x xs)
  show ?case
  proof (cases "f x")
    case (Inl e)
    then show ?thesis by (auto dest: spec [of _ 0])
  next
    case fx: (Inr v)
    show ?thesis
    proof (cases "mapP f xs")
      case (Inl e)
      have "\<not> (length ys = Suc (length xs) \<and> (\<forall>i<Suc (length xs). f ((x # xs) ! i) = Inr (ys ! i)))"
      proof
        assume a: "length ys = Suc (length xs) \<and> (\<forall>i<Suc (length xs). f ((x # xs) ! i) = Inr (ys ! i))"
        then obtain z zs where ys: "ys = z # zs" by (cases ys) auto
        with a have "length zs = length xs \<and> (\<forall>i<length xs. f (xs ! i) = Inr (zs ! i))"
          by (auto dest: spec [of _ "Suc _"])
        with Cons.IH [of zs] Inl show False by simp
      qed
      with fx Inl show ?thesis by simp
    next
      case rest: (Inr vs)
      from Cons.IH [of vs] rest have vs: "length vs = length xs" "\<forall>i<length xs. f (xs ! i) = Inr (vs ! i)"
        by simp_all
      show ?thesis
      proof
        assume "mapP f (x # xs) = Inr ys"
        with fx rest have "ys = v # vs" by simp
        with fx vs show "length ys = length (x # xs) \<and> (\<forall>i<length (x # xs). f ((x # xs) ! i) = Inr (ys ! i))"
          by (auto simp: nth_Cons split: nat.splits)
      next
        assume a: "length ys = length (x # xs) \<and> (\<forall>i<length (x # xs). f ((x # xs) ! i) = Inr (ys ! i))"
        then obtain z zs where ys: "ys = z # zs" by (cases ys) auto
        from a ys fx have "z = v" by (auto dest: spec [of _ 0])
        moreover from a ys have "length zs = length xs \<and> (\<forall>i<length xs. f (xs ! i) = Inr (zs ! i))"
          by (auto dest: spec [of _ "Suc _"])
        with Cons.IH [of zs] rest have "zs = vs" by simp
        ultimately show "mapP f (x # xs) = Inr ys" using fx rest ys by simp
      qed
    qed
  qed
qed

lemma mapP_grid:
  assumes "mapP (\<lambda>y. mapP (f y) [0..<w y]) [0..<h] = Inr rows"
  shows "length rows = h"
    and "y < h \<Longrightarrow> length (rows ! y) = w y"
    and "y < h \<Longrightarrow> x < w y \<Longrightarrow> f y x = Inr (rows ! y ! x)"
proof -
  from assms have len: "length rows = h"
    and row: "\<And>i. i < h \<Longrightarrow> mapP (f i) [0..<w i] = Inr (rows ! i)"
    by (simp_all add: mapP_Inr_iff)
  show "length rows = h" by (rule len)
  show "length (rows ! y) = w y" if "y < h"
    using row [OF that] by (simp add: mapP_Inr_iff)
  show "f y x = Inr (rows ! y ! x)" if "y < h" "x < w y"
    using row [OF that(1)] that(2) by (simp add: mapP_Inr_iff)
qed

subsection \<open>Evaluation of the arithmetic on concrete images\<close>

lemma pascal4: "getPascalTriangleRow 4 = [1, 4, 6, 4, 1]"
proof -
  have "[0..<5] = [0, 1, 2, 3, 4::nat]" by (simp add: upt_rec)
  moreover have "(4 choose 0) = (1::nat)" "(4 choose 1) = (4::nat)" "(4 choose 2) = (6::nat)"
    "(4 choose 3) = (4::nat)" "(4 choose 4) = (1::nat)"
    by (simp_all add: binomial_eq_0 numeral_eq_Suc)
  ultimately show ?thesis by (simp add: getPascalTriangleRow_def)
qed

lemma kernel5: "normalizeVec (getPascalTriangleRow 4) = [1/16, 1/4, 3/8, 1/4, 1/16]"
  by (simp add: pascal4 normalizeVec_def upt_rec nth_Cons')

lemma floor_sqrt_eq:
  fixes k :: int and v :: real
  assumes "0 \<le> k" "(of_int k)\<^sup>2 \<le> v" "v < (of_int k + 1)\<^sup>2"
  shows "\<lfloor>sqrt v\<rfloor> = k"
proof (rule floor_unique)
  show "of_int k \<le> sqrt v" using assms(2) by (rule real_le_rsqrt)
  from assms(1) have "0 \<le> (of_int k + 1 :: real)" by simp
  with assms(3) show "sqrt v < of_int k + 1" by (intro real_less_lsqrt) simp_all
qed

lemma sqrt_20000: "uint8_of_float64 (sqrt 20000) = 141"
proof -
  have "\<lfloor>sqrt 20000\<rfloor> = 141" by (rule floor_sqrt_eq) simp_all
  then show ?thesis by (simp add: uint8_of_float64_def)
qed

lemma uint8_of_float64_sqrt: "uint (uint8_of_float64 (sqrt v)) = \<lfloor>sqrt v\<rfloor> mod 256" if "0 \<le> v"
proof -
  from that have "0 \<le> sqrt v" by simp
  then show ?thesis by (simp add: uint8_of_float64_def uint_word_of_int)
qed

lemmas eval_simps = go_mod_def go_div_def upto_rec1 idx_def at2_def abs_go_def
  NewVecDense_def NewDense_def innerProduct_def convolve_def At_def SOBEL_X_def SOBEL_Y_def
  upt_rec nth_Cons' Let_def

lemma sobel_step_image:
  "sobel
       [[GrayPixel 255 255, GrayPixel 0 255, GrayPixel 0 255],
        [GrayPixel 255 255, GrayPixel 0 255, GrayPixel 0 255],
        [GrayPixel 255 255, GrayPixel 0 255, GrayPixel 0 255]]
     = Inr ([[GrayPixel 0 255, GrayPixel 252 255, GrayPixel 0 255],
             [GrayPixel 0 255, GrayPixel 252 255, GrayPixel 0 255],
             [GrayPixel 0 255, GrayPixel 252 255, GrayPixel 0 255]],
            [[0, 0, 0], [0, 0, 0], [0, 0, 0]])"
  by (simp add: sobel_def sobelPixel_def getSorroundingPixelMatrix_def eval_simps
        uint8_of_float64_def)

lemma gaussianBlur_zero_image:
  "gaussianBlur
     [[GrayPixel 0 7, GrayPixel 0 7, GrayPixel 0 7],
      [GrayPixel 0 7, GrayPixel 0 7, GrayPixel 0 7],
      [GrayPixel 0 7, GrayPixel 0 7, GrayPixel 0 7]] 5
   = Inr [[GrayPixel 0 255, GrayPixel 0 255, GrayPixel 0 255],
          [GrayPixel 0 255, GrayPixel 0 255, GrayPixel 0 255],
          [GrayPixel 0 255, GrayPixel 0 255, GrayPixel 0 255]]"
  by (simp add: gaussianBlur_def gaussianBlurPixel_def getPixelVector_def kernel5 eval_simps
        uint8_of_float64_def)

lemma sobel_zero_image:
  "sobel
     [[GrayPixel 0 7, GrayPixel 0 7, GrayPixel 0 7],
      [GrayPixel 0 7, GrayPixel 0 7, GrayPixel 0 7],
      [GrayPixel 0 7, GrayPixel 0 7, GrayPixel 0 7]]
   = Inr ([[GrayPixel 0 255, GrayPixel 0 255, GrayPixel 0 255],
           [GrayPixel 0 255, GrayPixel 0 255, GrayPixel 0 255],
           [GrayPixel 0 255, GrayPixel 0 255, GrayPixel 0 255]],
          [[0, 0, 0], [0, 0, 0], [0, 0, 0]])"
  by (simp add: sobel_def sobelPixel_def getSorroundingPixelMatrix_def eval_simps
        uint8_of_float64_def)

lemma gaussianBlurPixel_alpha: "gaussianBlurPixel pixels kern y x = Inr p \<Longrightarrow> pix_a p = 255"
  by (auto simp: gaussianBlurPixel_def bindP_Inr_iff Let_def)

lemma sobelPixel_alpha: "sobelPixel pixels kx ky y x = Inr (p, a) \<Longrightarrow> pix_a p = 255"
  by (auto simp: sobelPixel_def bindP_Inr_iff Let_def)

subsection \<open>The stages return on images that are large enough\<close>

lemma mapP_total:
  assumes "\<And>x. x \<in> set xs \<Longrightarrow> \<exists>v. f x = Inr v"
  shows "\<exists>vs. mapP f xs = Inr vs"
  using assms
proof (induction xs)
  case Nil
  show ?case by simp
next
  case (Cons x xs)
  from Cons.prems obtain v where v: "f x = Inr v" by auto
  from Cons obtain vs where vs: "mapP f xs = Inr vs" by auto
  from v vs show ?case by simp
qed

lemma mirror_index_in_range:
  fixes n pos i pad :: int
  assumes "0 \<le> pos" "pos < n" "pad < n" "pos - pad \<le> i" "i \<le> pos + pad"
  shows "0 \<le> (if i < 0 then pos + abs_go i else if i \<ge> n then pos - (i - n + 1) else i)
       \<and> (if i < 0 then pos + abs_go i else if i \<ge> n then pos - (i - n + 1) else i) < n"
  using assms by (auto simp: abs_go_def Let_def)

lemma length_concat_const:
  assumes "\<forall>r\<in>set rows. length r = k"
  shows "length (concat rows) = k * length rows"
  using assms by (induction rows) auto

lemma getSorroundingPixelMatrix_total:
  assumes rect: "\<forall>row\<in>set pixels. length row = length (pixels ! 0)"
    and big: "2 \<le> length pixels" "2 \<le> length (pixels ! 0)"
    and y: "0 \<le> posY" "posY < int (length pixels)"
    and x: "0 \<le> posX" "posX < int (length (pixels ! 0))"
  shows "\<exists>vals. getSorroundingPixelMatrix pixels posY posX 3 = Inr (Dense 3 3 vals)"
proof -
  let ?H = "int (length pixels)" and ?W = "int (length (pixels ! 0))"
  from y have row0: "idx pixels 0 = Inr (pixels ! 0)"
    by (cases pixels) (simp_all add: idx_def)
  have rd: "at2 pixels r c = Inr (pixels ! nat r ! nat c)"
    if "0 \<le> r \<and> r < ?H" "0 \<le> c \<and> c < ?W" for r c
  proof -
    from that have "nat r < length pixels" by linarith
    then have "pixels ! nat r \<in> set pixels" by (rule nth_mem)
    with rect have "length (pixels ! nat r) = length (pixels ! 0)" by blast
    with that show ?thesis by (simp add: at2_in_range)
  qed
  let ?curY = "\<lambda>i. if i < 0 then posY + abs_go i
                    else if i \<ge> ?H then posY - (i - ?H + 1) else i"
  let ?curX = "\<lambda>i. if i < 0 then posX + abs_go i
                    else if i \<ge> ?W then posX - (i - ?W + 1) else i"
  let ?cell = "\<lambda>i j. bindP (at2 pixels (?curY i) (?curX j))
                         (\<lambda>currentPixel. Inr (real (unat (pix_y currentPixel))))"
  let ?row = "\<lambda>i. mapP (?cell i) [posX - 1..posX + 1]"
  have cell: "\<exists>v. ?cell i j = Inr v"
    if "i \<in> set [posY - 1..posY + 1]" "j \<in> set [posX - 1..posX + 1]" for i j
  proof -
    from that y big have "0 \<le> ?curY i \<and> ?curY i < ?H"
      by (intro mirror_index_in_range [where pad = 1]) auto
    moreover from that x big have "0 \<le> ?curX j \<and> ?curX j < ?W"
      by (intro mirror_index_in_range [where pad = 1]) auto
    ultimately show ?thesis by (simp only: rd bindP.simps) blast
  qed
  have "\<exists>vs. ?row i = Inr vs" if "i \<in> set [posY - 1..posY + 1]" for i
    using cell [OF that] by (rule mapP_total)
  then obtain rows where rows: "mapP ?row [posY - 1..posY + 1] = Inr rows"
    using mapP_total [of "[posY - 1..posY + 1]" ?row] by blast
  then have len: "length rows = 3" and each: "\<forall>i<3. ?row ([posY - 1..posY + 1] ! i) = Inr (rows ! i)"
    by (simp_all add: mapP_Inr_iff length_upto)
  have "\<forall>r\<in>set rows. length r = 3"
  proof
    fix r assume "r \<in> set rows"
    then obtain i where i: "i < 3" "r = rows ! i" using len by (auto simp: in_set_conv_nth)
    with each have "?row ([posY - 1..posY + 1] ! i) = Inr r" by simp
    then show "length r = 3" by (simp add: mapP_Inr_iff length_upto)
  qed
  then have "length (concat rows) = 3 * length rows" by (rule length_concat_const)
  with len have "length (concat rows) = 9" by simp
  then have "NewDense 3 3 (concat rows) = Inr (Dense 3 3 (concat rows))"
    by (simp add: NewDense_def)
  moreover have "getSorroundingPixelMatrix pixels posY posX 3 =
      bindP (mapP ?row [posY - 1..posY + 1]) (\<lambda>rows. NewDense 3 3 (concat rows))"
    unfolding getSorroundingPixelMatrix_def Let_def
    by (simp add: go_mod_def go_div_def row0)
  ultimately have "getSorroundingPixelMatrix pixels posY posX 3 = Inr (Dense 3 3 (concat rows))"
    by (simp only: rows bindP.simps)
  then show ?thesis by blast
qed

lemma sobelPixel_total:
  assumes rect: "\<forall>row\<in>set pixels. length row = length (pixels ! 0)"
    and big: "2 \<le> length pixels" "2 \<le> length (pixels ! 0)"
    and y: "y < length pixels" and x: "x < length (pixels ! 0)"
  shows "\<exists>r. sobelPixel pixels (Dense 3 3 SOBEL_X) (Dense 3 3 SOBEL_Y) y x = Inr r"
proof -
  from getSorroundingPixelMatrix_total [OF rect big, of "int y" "int x"] y x
  obtain vals where "getSorroundingPixelMatrix pixels (int y) (int x) 3 = Inr (Dense 3 3 vals)"
    by auto
  then show ?thesis
    by (simp add: sobelPixel_def convolve_def Let_def)
qed

lemma sobel_total:
  assumes rect: "\<forall>row\<in>set pixels. length row = length (pixels ! 0)"
    and big: "2 \<le> length pixels" "2 \<le> length (pixels ! 0)"
  shows "\<exists>gradient directions. sobel pixels = Inr (gradient, directions)"
proof -
  have kx: "NewDense 3 3 SOBEL_X = Inr (Dense 3 3 SOBEL_X)"
    and ky: "NewDense 3 3 SOBEL_Y = Inr (Dense 3 3 SOBEL_Y)"
    by (simp_all add: NewDense_def SOBEL_X_def SOBEL_Y_def)
  have "\<exists>row. mapP (sobelPixel pixels (Dense 3 3 SOBEL_X) (Dense 3 3 SOBEL_Y) y)
              [0..<length (pixels ! y)] = Inr row" if "y \<in> set [0..<length pixels]" for y
  proof (rule mapP_total)
    fix x assume "x \<in> set [0..<length (pixels ! y)]"
    moreover from that have "pixels ! y \<in> set pixels" by (intro nth_mem) simp
    with rect have "length (pixels ! y) = length (pixels ! 0)" by blast
    ultimately show "\<exists>v. sobelPixel pixels (Dense 3 3 SOBEL_X) (Dense 3 3 SOBEL_Y) y x = Inr v"
      using that by (intro sobelPixel_total [OF rect big]) simp_all
  qed
  then obtain rows where
    "mapP (\<lambda>y. mapP (sobelPixel pixels (Dense 3 3 SOBEL_X) (Dense 3 3 SOBEL_Y) y)
                  [0..<length (pixels ! y)]) [0..<length pixels] = Inr rows"
    using mapP_total [of "[0..<length pixels]"
        "\<lambda>y. mapP (sobelPixel pixels (Dense 3 3 SOBEL_X) (Dense 3 3 SOBEL_Y) y) [0..<length (pixels ! y)]"]
    by blast
  then show ?thesis by (simp add: sobel_def kx ky)
qed

lemma go_div_mod_odd:
  assumes "odd k"
  shows "go_mod (int k) 2 = 1" and "go_div (int k) 2 = int (k div 2)"
proof -
  show d: "go_div (int k) 2 = int (k div 2)" by (simp add: go_div_def zdiv_int)
  from assms have "2 * (k div 2) + 1 = k" by (rule odd_two_times_div_two_succ)
  then have "int k = 2 * int (k div 2) + 1" by linarith
  then show "go_mod (int k) 2 = 1" unfolding go_mod_def d by linarith
qed

lemma mapP_total_prop:
  assumes "\<And>x. x \<in> set xs \<Longrightarrow> \<exists>v. f x = Inr v \<and> P v"
  shows "\<exists>vs. mapP f xs = Inr vs \<and> (\<forall>v\<in>set vs. P v)"
  using assms
proof (induction xs)
  case Nil
  show ?case by simp
next
  case (Cons x xs)
  from Cons.prems obtain v where v: "f x = Inr v" "P v" by auto
  from Cons obtain vs where vs: "mapP f xs = Inr vs" "\<forall>v\<in>set vs. P v" by auto
  from v vs show ?case by simp
qed

lemma getPixelVector_samples:
  assumes rect: "\<forall>row\<in>set pixels. length row = length (pixels ! 0)"
    and odd: "odd k"
    and pad: "k div 2 < length pixels" "k div 2 < length (pixels ! 0)"
    and y: "y < length pixels" and x: "x < length (pixels ! 0)"
  shows "\<exists>vals. getPixelVector pixels (int y) (int x) (int k) dir = Inr vals \<and> length vals = k \<and>
           (\<forall>v\<in>set vals. \<exists>r<length pixels. \<exists>c<length (pixels ! 0).
                v = real (unat (pix_y (pixels ! r ! c))))"
proof -
  let ?H = "int (length pixels)" and ?W = "int (length (pixels ! 0))"
  let ?p = "int (k div 2)"
  let ?P = "\<lambda>v. \<exists>r<length pixels. \<exists>c<length (pixels ! 0). v = real (unat (pix_y (pixels ! r ! c)))"
  have rd: "at2 pixels r c = Inr (pixels ! nat r ! nat c)"
    if "0 \<le> r \<and> r < ?H" "0 \<le> c \<and> c < ?W" for r c
  proof -
    from that have "nat r < length pixels" by linarith
    then have "pixels ! nat r \<in> set pixels" by (rule nth_mem)
    with rect have "length (pixels ! nat r) = length (pixels ! 0)" by blast
    with that show ?thesis by (simp add: at2_in_range)
  qed
  have sample: "\<exists>v. bindP (at2 pixels r c) (\<lambda>currentPixel. Inr (real (unat (pix_y currentPixel)))) = Inr v \<and> ?P v"
    if "0 \<le> r \<and> r < ?H" "0 \<le> c \<and> c < ?W" for r c
  proof -
    from that have "nat r < length pixels" "nat c < length (pixels ! 0)" by linarith+
    then have "?P (real (unat (pix_y (pixels ! nat r ! nat c))))" by blast
    then show ?thesis unfolding rd [OF that] bindP.simps by blast
  qed
  from y have "pixels ! y \<in> set pixels" by (rule nth_mem)
  with rect have rowlen: "length (pixels ! y) = length (pixels ! 0)" by blast
  from y have rowy: "idx pixels (int y) = Inr (pixels ! y)" by (simp add: idx_def)
  from odd have k: "k = 2 * (k div 2) + 1" by (simp add: odd_two_times_div_two_succ)
  have lenY: "length [int y - ?p..int y + ?p] = k" and lenX: "length [int x - ?p..int x + ?p] = k"
    using k by simp_all
  let ?hor = "\<lambda>i. bindP (idx pixels (int y)) (\<lambda>row.
                 bindP (if i < 0 then at2 pixels (int y) (int x + abs_go i)
                        else if i \<ge> int (length row) then at2 pixels (int y) (int x - (i - int (length row) + 1))
                        else at2 pixels (int y) i)
                   (\<lambda>currentPixel. Inr (real (unat (pix_y currentPixel)))))"
  let ?ver = "\<lambda>i. bindP (if i < 0 then at2 pixels (int y + abs_go i) (int x)
                        else if i \<ge> ?H then at2 pixels (int y - (i - ?H + 1)) (int x)
                        else at2 pixels i (int x))
                   (\<lambda>currentPixel. Inr (real (unat (pix_y currentPixel))))"
  have hor: "\<exists>v. ?hor i = Inr v \<and> ?P v" if "i \<in> set [int x - ?p..int x + ?p]" for i
  proof -
    let ?c = "if i < 0 then int x + abs_go i else if i \<ge> ?W then int x - (i - ?W + 1) else i"
    from that x pad have "0 \<le> ?c \<and> ?c < ?W"
      by (intro mirror_index_in_range [where pad = ?p]) auto
    moreover from y have "0 \<le> int y \<and> int y < ?H" by simp
    ultimately have "\<exists>v. bindP (at2 pixels (int y) ?c)
        (\<lambda>currentPixel. Inr (real (unat (pix_y currentPixel)))) = Inr v \<and> ?P v"
      by (intro sample)
    then show ?thesis unfolding rowy bindP.simps rowlen by (auto split: if_splits)
  qed
  have ver: "\<exists>v. ?ver i = Inr v \<and> ?P v" if "i \<in> set [int y - ?p..int y + ?p]" for i
  proof -
    let ?r = "if i < 0 then int y + abs_go i else if i \<ge> ?H then int y - (i - ?H + 1) else i"
    from that y pad have "0 \<le> ?r \<and> ?r < ?H"
      by (intro mirror_index_in_range [where pad = ?p]) auto
    moreover from x have "0 \<le> int x \<and> int x < ?W" by simp
    ultimately have "\<exists>v. bindP (at2 pixels ?r (int x))
        (\<lambda>currentPixel. Inr (real (unat (pix_y currentPixel)))) = Inr v \<and> ?P v"
      by (intro sample)
    then show ?thesis by (auto split: if_splits)
  qed
  from odd have kpos: "0 < k" by (cases k) simp_all
  show ?thesis
  proof (cases dir)
    case HORIZONTAL
    have unfold: "getPixelVector pixels (int y) (int x) (int k) HORIZONTAL =
        bindP (mapP ?hor [int x - ?p..int x + ?p])
              (\<lambda>values. NewVecDense (int (length values)) values)"
      unfolding getPixelVector_def Let_def
      by (simp add: go_div_mod_odd [OF odd])
    from mapP_total_prop [of "[int x - ?p..int x + ?p]" ?hor ?P] hor
    obtain vals where vals: "mapP ?hor [int x - ?p..int x + ?p] = Inr vals"
      and inside: "\<forall>v\<in>set vals. ?P v" by blast
    from vals have "length vals = k" using lenX by (simp add: mapP_Inr_iff)
    with kpos inside show ?thesis
      unfolding HORIZONTAL unfold vals bindP.simps by (simp add: NewVecDense_def)
  next
    case VERTICAL
    have unfold: "getPixelVector pixels (int y) (int x) (int k) VERTICAL =
        bindP (mapP ?ver [int y - ?p..int y + ?p])
              (\<lambda>values. NewVecDense (int (length values)) values)"
      unfolding getPixelVector_def Let_def
      by (simp add: go_div_mod_odd [OF odd])
    from mapP_total_prop [of "[int y - ?p..int y + ?p]" ?ver ?P] ver
    obtain vals where vals: "mapP ?ver [int y - ?p..int y + ?p] = Inr vals"
      and inside: "\<forall>v\<in>set vals. ?P v" by blast
    from vals have "length vals = k" using lenY by (simp add: mapP_Inr_iff)
    with kpos inside show ?thesis
      unfolding VERTICAL unfold vals bindP.simps by (simp add: NewVecDense_def)
  qed
qed

lemma length_kernel: "length (normalizeVec (getPascalTriangleRow n)) = n + 1"
  by (simp add: normalizeVec_def getPascalTriangleRow_def Let_def)

lemma gaussianBlur_total:
  assumes rect: "\<forall>row\<in>set pixels. length row = length (pixels ! 0)"
    and odd: "odd kernelSize"
    and pad: "kernelSize div 2 < length pixels" "kernelSize div 2 < length (pixels ! 0)"
  shows "\<exists>blurred. gaussianBlur pixels kernelSize = Inr blurred"
proof -
  let ?kern = "normalizeVec (getPascalTriangleRow (kernelSize - 1))"
  from odd have "0 < kernelSize" by (cases kernelSize) simp_all
  then have klen: "length ?kern = kernelSize" by (simp add: length_kernel)
  have pixel: "\<exists>p. gaussianBlurPixel pixels ?kern y x = Inr p"
    if "y < length pixels" "x < length (pixels ! 0)" for y x
  proof -
    from getPixelVector_samples [OF rect odd pad that, of VERTICAL]
    obtain v where v: "getPixelVector pixels (int y) (int x) (int kernelSize) VERTICAL = Inr v"
      "length v = kernelSize" by blast
    from getPixelVector_samples [OF rect odd pad that, of HORIZONTAL]
    obtain h where h: "getPixelVector pixels (int y) (int x) (int kernelSize) HORIZONTAL = Inr h"
      "length h = kernelSize" by blast
    have ip: "innerProduct v ?kern = Inr (foldl (\<lambda>result i. result + v ! i * ?kern ! i) 0 [0..<length v])"
      "innerProduct h ?kern = Inr (foldl (\<lambda>result i. result + h ! i * ?kern ! i) 0 [0..<length h])"
      unfolding innerProduct_def v(2) h(2) klen by simp_all
    show ?thesis
      unfolding gaussianBlurPixel_def klen v(1) h(1) ip bindP.simps Let_def by blast
  qed
  have "\<exists>row. mapP (gaussianBlurPixel pixels ?kern y) [0..<length (pixels ! y)] = Inr row"
    if "y \<in> set [0..<length pixels]" for y
  proof (rule mapP_total)
    fix x assume "x \<in> set [0..<length (pixels ! y)]"
    moreover from that have "pixels ! y \<in> set pixels" by (intro nth_mem) simp
    with rect have "length (pixels ! y) = length (pixels ! 0)" by blast
    ultimately show "\<exists>v. gaussianBlurPixel pixels ?kern y x = Inr v"
      using that by (intro pixel) simp_all
  qed
  then obtain rows where
    "mapP (\<lambda>y. mapP (gaussianBlurPixel pixels ?kern y) [0..<length (pixels ! y)])
        [0..<length pixels] = Inr rows"
    using mapP_total [of "[0..<length pixels]"
        "\<lambda>y. mapP (gaussianBlurPixel pixels ?kern y) [0..<length (pixels ! y)]"]
    by blast
  moreover from odd have "kernelSize mod 2 \<noteq> 0" by presburger
  ultimately show ?thesis unfolding gaussianBlur_def Let_def by simp
qed

subsection \<open>The blur of a flat image\<close>

text \<open>
  The kernel sums to 1, so on an image of one intensity both inner products are that
  intensity, and the blur stores the conversion of \<open>sqrt (2 * intensity\<^sup>2)\<close> in every pixel.
  This is a statement of exact arithmetic; it is the code's behaviour for the kernel size 5
  of the pipeline, where \<^verbatim>\<open>float64\<close> is exact, and not for kernel sizes from 63 on, where
  the code's binomial coefficients overflow.
\<close>

lemma foldl_add_sum:
  fixes z :: real
  shows "foldl (\<lambda>r i. r + f i) z [0..<n] = z + (\<Sum>i<n. f i)"
  by (induction n arbitrary: z) (simp_all add: algebra_simps)

lemma pascal_row_sum: "(\<Sum>i<n + 1. real (n choose i)) = 2 ^ n"
proof -
  have "(\<Sum>i<n + 1. real (n choose i)) = real (\<Sum>i\<le>n. n choose i)"
    by (simp add: lessThan_Suc_atMost)
  also have "\<dots> = 2 ^ n" by (simp add: choose_row_sum)
  finally show ?thesis .
qed

lemma kernel_sum: "(\<Sum>i<n + 1. normalizeVec (getPascalTriangleRow n) ! i) = 1"
proof -
  let ?v = "getPascalTriangleRow n"
  have len: "length ?v = n + 1" by (simp add: getPascalTriangleRow_def)
  have nth: "?v ! i = real (n choose i)" if "i < n + 1" for i
    using that by (simp add: getPascalTriangleRow_def del: upt_Suc)
  have s: "foldl (\<lambda>sum i. sum + ?v ! i) 0 [0..<length ?v] = 2 ^ n"
    unfolding foldl_add_sum len using nth pascal_row_sum [of n] by simp
  have "normalizeVec ?v ! i = (1 / 2 ^ n) * real (n choose i)" if "i < n + 1" for i
    using that len nth unfolding normalizeVec_def Let_def s by simp
  then have "(\<Sum>i<n + 1. normalizeVec ?v ! i) = (\<Sum>i<n + 1. (1 / 2 ^ n) * real (n choose i))"
    by (intro sum.cong) simp_all
  also have "\<dots> = (1 / 2 ^ n) * (\<Sum>i<n + 1. real (n choose i))"
    by (simp only: sum_distrib_left)
  also have "\<dots> = 1" unfolding pascal_row_sum by simp
  finally show ?thesis .
qed

lemma innerProduct_flat:
  assumes "length vec = n + 1" and "\<forall>v\<in>set vec. v = a"
  shows "innerProduct vec (normalizeVec (getPascalTriangleRow n)) = Inr a"
proof -
  let ?k = "normalizeVec (getPascalTriangleRow n)"
  have klen: "length ?k = n + 1" by (rule length_kernel)
  have "(\<Sum>i<n + 1. vec ! i * ?k ! i) = (\<Sum>i<n + 1. a * ?k ! i)"
    using assms by (intro sum.cong) simp_all
  also have "\<dots> = a * (\<Sum>i<n + 1. ?k ! i)" by (simp only: sum_distrib_left)
  also have "\<dots> = a" unfolding kernel_sum by simp
  finally have "(\<Sum>i<n + 1. vec ! i * ?k ! i) = a" .
  then show ?thesis
    unfolding innerProduct_def klen assms(1) foldl_add_sum by simp
qed

lemma gaussianBlur_flat:
  assumes rect: "\<forall>row\<in>set pixels. length row = length (pixels ! 0)"
    and odd: "odd kernelSize"
    and pad: "kernelSize div 2 < length pixels" "kernelSize div 2 < length (pixels ! 0)"
    and flat: "\<forall>r<length pixels. \<forall>c<length (pixels ! 0). pix_y (pixels ! r ! c) = intensity"
  shows "\<exists>blurred. gaussianBlur pixels kernelSize = Inr blurred \<and>
           length blurred = length pixels \<and>
           (\<forall>y<length pixels. length (blurred ! y) = length (pixels ! 0) \<and>
              (\<forall>x<length (pixels ! 0).
                 blurred ! y ! x =
                   GrayPixel (uint8_of_float64 (sqrt (2 * (real (unat intensity))\<^sup>2))) 255))"
proof -
  let ?a = "real (unat intensity)"
  let ?n = "kernelSize - 1"
  let ?kern = "normalizeVec (getPascalTriangleRow ?n)"
  let ?out = "GrayPixel (uint8_of_float64 (sqrt (2 * ?a\<^sup>2))) 255"
  from odd have kpos: "0 < kernelSize" by (cases kernelSize) simp_all
  then have kn: "kernelSize = ?n + 1" by simp
  have pixel: "gaussianBlurPixel pixels ?kern y x = Inr ?out"
    if "y < length pixels" "x < length (pixels ! 0)" for y x
  proof -
    from getPixelVector_samples [OF rect odd pad that, of VERTICAL] flat
    obtain v where v: "getPixelVector pixels (int y) (int x) (int kernelSize) VERTICAL = Inr v"
      "length v = kernelSize" "\<forall>e\<in>set v. e = ?a" by fastforce
    from getPixelVector_samples [OF rect odd pad that, of HORIZONTAL] flat
    obtain h where h: "getPixelVector pixels (int y) (int x) (int kernelSize) HORIZONTAL = Inr h"
      "length h = kernelSize" "\<forall>e\<in>set h. e = ?a" by fastforce
    from v(2) kn have "length v = ?n + 1" by simp
    then have iv: "innerProduct v ?kern = Inr ?a" using v(3) by (rule innerProduct_flat)
    from h(2) kn have "length h = ?n + 1" by simp
    then have ih: "innerProduct h ?kern = Inr ?a" using h(3) by (rule innerProduct_flat)
    have klen: "length ?kern = kernelSize" using kn by (simp add: length_kernel)
    have "?a * ?a + ?a * ?a = 2 * ?a\<^sup>2" by (simp add: power2_eq_square)
    then show ?thesis
      unfolding gaussianBlurPixel_def klen v(1) h(1) iv ih bindP.simps Let_def by simp
  qed
  have row: "mapP (gaussianBlurPixel pixels ?kern y) [0..<length (pixels ! y)]
               = Inr (replicate (length (pixels ! 0)) ?out)"
    if "y < length pixels" for y
  proof -
    from that have "pixels ! y \<in> set pixels" by (rule nth_mem)
    with rect have "length (pixels ! y) = length (pixels ! 0)" by blast
    then show ?thesis using pixel [OF that] by (simp add: mapP_Inr_iff)
  qed
  let ?res = "replicate (length pixels) (replicate (length (pixels ! 0)) ?out)"
  have "mapP (\<lambda>y. mapP (gaussianBlurPixel pixels ?kern y) [0..<length (pixels ! y)])
          [0..<length pixels] = Inr ?res"
    using row by (simp add: mapP_Inr_iff)
  moreover from odd have "kernelSize mod 2 \<noteq> 0" by presburger
  ultimately have "gaussianBlur pixels kernelSize = Inr ?res"
    unfolding gaussianBlur_def Let_def by simp
  then show ?thesis by auto
qed

subsection \<open>The gradient at the border of the image\<close>




















subsection \<open>A run of the whole pipeline\<close>

lemma pipeline_eval:
  "CannyEdgeDetect (*) (\<lambda>S. filter (\<lambda>p. p \<in> S) [Point 4 0, Point 4 1])
     [[GrayPixel 0 255, GrayPixel 0 255, GrayPixel 60 255, GrayPixel 60 255, GrayPixel 40 255, GrayPixel 40 255],
      [GrayPixel 0 255, GrayPixel 0 255, GrayPixel 60 255, GrayPixel 60 255, GrayPixel 40 255, GrayPixel 40 255]]
     False (1/4) (1/2)
   = Inr [[GrayPixel 0 255, GrayPixel 240 255, GrayPixel 240 255, GrayPixel 0 255, GrayPixel 0 255, GrayPixel 0 255],
          [GrayPixel 0 255, GrayPixel 240 255, GrayPixel 240 255, GrayPixel 0 255, GrayPixel 0 255, GrayPixel 0 255]]"
proof -
  let ?img = "[[GrayPixel 0 255, GrayPixel 0 255, GrayPixel 60 255, GrayPixel 60 255, GrayPixel 40 255, GrayPixel 40 255],
      [GrayPixel 0 255, GrayPixel 0 255, GrayPixel 60 255, GrayPixel 60 255, GrayPixel 40 255, GrayPixel 40 255]]"
  let ?grad = "[[GrayPixel 0 255, GrayPixel 240 255, GrayPixel 240 255, GrayPixel 80 255, GrayPixel 80 255, GrayPixel 0 255],
          [GrayPixel 0 255, GrayPixel 240 255, GrayPixel 240 255, GrayPixel 80 255, GrayPixel 80 255, GrayPixel 0 255]]"
  let ?thin = "[[GrayPixel 0 255, GrayPixel 240 255, GrayPixel 240 255, GrayPixel 0 255, GrayPixel 80 255, GrayPixel 0 255],
          [GrayPixel 0 255, GrayPixel 240 255, GrayPixel 240 255, GrayPixel 0 255, GrayPixel 80 255, GrayPixel 0 255]]"
  let ?dirs = "[[0, 0, 0, 0, 0, 0], [0, 0, 0, 0, 0, 0 :: real]]"
  have s: "sobel ?img = Inr (?grad, ?dirs)"
    by (simp add: sobel_def sobelPixel_def getSorroundingPixelMatrix_def eval_simps uint8_of_float64_def)
  have n: "nonMaximumSuppression ?grad ?dirs = Inr ?thin"
    by (simp add: nonMaximumSuppression_def nonMaximumSuppressionPixel_def
          getPixelInGradientDirection_def gradientNeighbours_def idx_def at2_def upt_rec)
  have m: "maxPixelValue ?thin = Inr 240"
    by (simp add: maxPixelValue_def idx_def at2_def upt_rec)
  have d: "doublethreshold ?thin 120 60 = Inr (?thin, {Point 1 0, Point 2 0, Point 1 1, Point 2 1}, {Point 4 0, Point 4 1})"
    by (simp add: doublethreshold_def doublethresholdStep_def idx_def at2_def set_y_def upt_rec insert_commute)
  have e: "edgeTracking ?thin {Point 1 0, Point 2 0, Point 1 1, Point 2 1} [Point 4 0, Point 4 1]
      = Inr ([[GrayPixel 0 255, GrayPixel 240 255, GrayPixel 240 255, GrayPixel 0 255, GrayPixel 0 255, GrayPixel 0 255],
          [GrayPixel 0 255, GrayPixel 240 255, GrayPixel 240 255, GrayPixel 0 255, GrayPixel 0 255, GrayPixel 0 255]],
          {Point 1 0, Point 2 0, Point 1 1, Point 2 1})"
    by (simp add: edgeTracking_def edgeTrackingStep_def getAdjacentPixels_def idx_def set_y_def
          upto_rec1 Let_def)
  show ?thesis
    by (simp add: CannyEdgeDetect_def s n m d e)
qed

section \<open>The neighbour set really computed\<close>

text \<open>
  Claim C10. For every image and every in-bounds coordinate \<open>(x, y)\<close>, the set computed by
  \<^const>\<open>getAdjacentPixels\<close> has at most one element: it is the upper-left diagonal
  neighbour \<open>(x - 1, y - 1)\<close> when that coordinate is in bounds, and the empty set when
  \<open>x = 0\<close> or \<open>y = 0\<close>. Each loop stops at the centre row or column, and the test
  \<^verbatim>\<open>(i!=y) && (j!=x)\<close> drops every candidate in the centre's row or column.
\<close>

theorem getAdjacentPixels_upper_left_only:
  assumes "0 \<le> y" and "y < int (length pixels)"
    and "0 \<le> x" and "x < int (length (pixels ! 0))"
  shows "getAdjacentPixels pixels x y =
           Inr (if x = 0 \<or> y = 0 then {} else {Point (x - 1) (y - 1)})"
proof -
  from assms(1,2) have row0: "idx pixels 0 = Inr (pixels ! 0)"
    by (cases pixels) (simp_all add: idx_def)
  show ?thesis
    using assms(1,3) unfolding getAdjacentPixels_def Let_def
    by (auto simp add: row0 adjacent_loop_range [OF assms(3,4)] adjacent_loop_range [OF assms(1,2)])
qed

theorem getAdjacentPixels_upper_left_only_witness:
  "(1::int) < int (length [[GrayPixel 1 255, GrayPixel 2 255], [GrayPixel 3 255, GrayPixel 4 255]])
   \<and> (1::int) < int (length ([[GrayPixel 1 255, GrayPixel 2 255], [GrayPixel 3 255, GrayPixel 4 255]] ! 0))
   \<and> getAdjacentPixels [[GrayPixel 1 255, GrayPixel 2 255], [GrayPixel 3 255, GrayPixel 4 255]] 1 1
     = Inr {Point 0 0}
   \<and> getAdjacentPixels [[GrayPixel 1 255, GrayPixel 2 255], [GrayPixel 3 255, GrayPixel 4 255]] 0 1
     = Inr {}"
  using getAdjacentPixels_upper_left_only
          [of 1 "[[GrayPixel 1 255, GrayPixel 2 255], [GrayPixel 3 255, GrayPixel 4 255]]" 1]
        getAdjacentPixels_upper_left_only
          [of 1 "[[GrayPixel 1 255, GrayPixel 2 255], [GrayPixel 3 255, GrayPixel 4 255]]" 0]
  by simp

section \<open>Double-threshold classification\<close>

text \<open>
  Claim C6 as stated has every pixel with \<open>low < intensity \<le> high\<close> in the weak set, so a
  pixel whose intensity equals \<open>high\<close> would be weak. The second test of
  \<^verbatim>\<open>doublethreshold\<close> is \<^verbatim>\<open>(high > pixVal) && (pixVal > low)\<close>: with \<open>high = 100\<close> and
  \<open>low = 50\<close> the pixel \<open>(0,0)\<close> of intensity 100 is zeroed and joins neither set, while
  the pixel \<open>(0,1)\<close> of intensity 80 is weak.
\<close>

theorem doublethreshold_equal_to_high_is_zeroed:
  "doublethreshold [[GrayPixel 100 255, GrayPixel 200 255], [GrayPixel 80 255, GrayPixel 0 255]] 100 50
     = Inr ([[GrayPixel 0 255, GrayPixel 200 255], [GrayPixel 80 255, GrayPixel 0 255]],
            {Point 1 0}, {Point 0 1})"
  by (simp add: doublethreshold_def doublethresholdStep_def at2_def idx_def set_y_def upt_rec)

text \<open>
  Claim C6, amended. For every image whose rows have the length of the first row and all
  thresholds, \<^const>\<open>doublethreshold\<close> returns, and for every pixel: it is in the strong set
  exactly when its intensity is strictly greater than \<open>high\<close>; it is in the weak set exactly
  when \<open>low < intensity < high\<close>; every other pixel, a pixel of intensity exactly \<open>high\<close>
  included, is in neither set and has its gray value set to 0 (its alpha value is kept),
  while the pixels of the two sets are left as they are.
\<close>

theorem doublethreshold_classification:
  assumes "\<forall>row\<in>set pixels. length row = length (pixels ! 0)"
  shows "\<exists>pixels' strong weak.
           doublethreshold pixels high low = Inr (pixels', strong, weak) \<and>
           (\<forall>y<length pixels. \<forall>x<length (pixels ! 0).
              (let v = real (unat (pix_y (pixels ! y ! x))) in
                 (Point (int x) (int y) \<in> strong \<longleftrightarrow> high < v) \<and>
                 (Point (int x) (int y) \<in> weak \<longleftrightarrow> low < v \<and> v < high) \<and>
                 pixels' ! y ! x =
                   (if high < v \<or> (low < v \<and> v < high) then pixels ! y ! x
                    else GrayPixel 0 (pix_a (pixels ! y ! x)))))"
proof -
  let ?grid = "{..<length pixels} \<times> {..<length (pixels ! 0)}"
  let ?Z = "cellPoint ` {c \<in> ?grid. \<not> isStrong high pixels c \<and> \<not> isWeak high low pixels c}"
  let ?S = "cellPoint ` {c \<in> ?grid. isStrong high pixels c}"
  let ?W = "cellPoint ` {c \<in> ?grid. \<not> isStrong high pixels c \<and> isWeak high low pixels c}"
  have run: "doublethreshold pixels high low = Inr (blacken ?Z pixels, ?S, ?W)"
    using assms by (rule doublethreshold_closed_form)
  have pt: "Point (int x) (int y) = cellPoint (y, x)" for x y
    by (simp add: cellPoint_def)
  have mem: "cellPoint (y, x) \<in> cellPoint ` A \<longleftrightarrow> (y, x) \<in> A" for x y A
    by (auto simp: inj_cellPoint)
  have "(let v = real (unat (pix_y (pixels ! y ! x))) in
           (Point (int x) (int y) \<in> ?S \<longleftrightarrow> high < v) \<and>
           (Point (int x) (int y) \<in> ?W \<longleftrightarrow> low < v \<and> v < high) \<and>
           blacken ?Z pixels ! y ! x =
             (if high < v \<or> (low < v \<and> v < high) then pixels ! y ! x
              else GrayPixel 0 (pix_a (pixels ! y ! x))))"
    if "y < length pixels" "x < length (pixels ! 0)" for y x
  proof -
    from that assms have x': "x < length (pixels ! y)" by simp
    show ?thesis
      using that x'
      by (auto simp add: Let_def pt mem nth_nth_blacken isStrong_def isWeak_def pixVal_def)
  qed
  with run show ?thesis by blast
qed

theorem doublethreshold_classification_witness:
  "list_all (\<lambda>row. length row = length ([[GrayPixel 100 7, GrayPixel 80 7], [GrayPixel 200 7, GrayPixel 0 7]] ! 0))
     [[GrayPixel 100 7, GrayPixel 80 7], [GrayPixel 200 7, GrayPixel 0 7]]
   \<and> (\<exists>pixels' strong weak.
        doublethreshold [[GrayPixel 100 7, GrayPixel 80 7], [GrayPixel 200 7, GrayPixel 0 7]] 100 50
          = Inr (pixels', strong, weak)
        \<and> Point 0 1 \<in> strong \<and> Point 1 0 \<in> weak
        \<and> Point 0 0 \<notin> strong \<and> Point 0 0 \<notin> weak \<and> pixels' ! 0 ! 0 = GrayPixel 0 7)"
proof -
  let ?img = "[[GrayPixel 100 7, GrayPixel 80 7], [GrayPixel 200 7, GrayPixel 0 7]]"
  have rect: "\<forall>row\<in>set ?img. length row = length (?img ! 0)" by simp
  from doublethreshold_classification [OF rect, of 100 50]
  obtain pixels' strong weak where
    run: "doublethreshold ?img 100 50 = Inr (pixels', strong, weak)" and
    cls: "\<forall>y<length ?img. \<forall>x<length (?img ! 0).
              (let v = real (unat (pix_y (?img ! y ! x))) in
                 (Point (int x) (int y) \<in> strong \<longleftrightarrow> 100 < v) \<and>
                 (Point (int x) (int y) \<in> weak \<longleftrightarrow> 50 < v \<and> v < 100) \<and>
                 pixels' ! y ! x =
                   (if 100 < v \<or> (50 < v \<and> v < 100) then ?img ! y ! x
                    else GrayPixel 0 (pix_a (?img ! y ! x))))"
    by blast
  from cls [rule_format, of 0 0] cls [rule_format, of 0 1] cls [rule_format, of 1 0]
  have "Point 0 1 \<in> strong \<and> Point 1 0 \<in> weak
        \<and> Point 0 0 \<notin> strong \<and> Point 0 0 \<notin> weak \<and> pixels' ! 0 ! 0 = GrayPixel 0 7"
    by (simp add: Let_def)
  with run show ?thesis by simp
qed

section \<open>Edge tracking\<close>

text \<open>
  Claim C8 as stated has every promotion decided against the strong set of the classifier.
  On the image below the classifier gives the strong set \<open>{(0,0)}\<close> and the weak set
  \<open>{(1,1), (2,2)}\<close>. The only neighbour that \<^const>\<open>getAdjacentPixels\<close> gives for \<open>(2,2)\<close>
  is \<open>(1,1)\<close>, which is not in that strong set; yet when the iterator delivers \<open>(1,1)\<close>
  first, \<open>(1,1)\<close> is promoted and then causes the promotion of \<open>(2,2)\<close>. In the other
  order \<open>(2,2)\<close> is not promoted.
\<close>

theorem edgeTracking_chain_through_promoted_pixel:
  "doublethreshold
     [[GrayPixel 200 255, GrayPixel 0 255, GrayPixel 0 255],
      [GrayPixel 0 255, GrayPixel 80 255, GrayPixel 0 255],
      [GrayPixel 0 255, GrayPixel 0 255, GrayPixel 80 255]] 100 50
     = Inr ([[GrayPixel 200 255, GrayPixel 0 255, GrayPixel 0 255],
             [GrayPixel 0 255, GrayPixel 80 255, GrayPixel 0 255],
             [GrayPixel 0 255, GrayPixel 0 255, GrayPixel 80 255]],
            {Point 0 0}, {Point 1 1, Point 2 2})
   \<and> Point 0 0 \<noteq> Point 1 1
   \<and> getAdjacentPixels
       [[GrayPixel 200 255, GrayPixel 0 255, GrayPixel 0 255],
        [GrayPixel 0 255, GrayPixel 80 255, GrayPixel 0 255],
        [GrayPixel 0 255, GrayPixel 0 255, GrayPixel 80 255]] 2 2 = Inr {Point 1 1}
   \<and> edgeTracking
       [[GrayPixel 200 255, GrayPixel 0 255, GrayPixel 0 255],
        [GrayPixel 0 255, GrayPixel 80 255, GrayPixel 0 255],
        [GrayPixel 0 255, GrayPixel 0 255, GrayPixel 80 255]]
       {Point 0 0} [Point 1 1, Point 2 2]
     = Inr ([[GrayPixel 200 255, GrayPixel 0 255, GrayPixel 0 255],
             [GrayPixel 0 255, GrayPixel 0 255, GrayPixel 0 255],
             [GrayPixel 0 255, GrayPixel 0 255, GrayPixel 0 255]],
            {Point 0 0, Point 1 1, Point 2 2})
   \<and> edgeTracking
       [[GrayPixel 200 255, GrayPixel 0 255, GrayPixel 0 255],
        [GrayPixel 0 255, GrayPixel 80 255, GrayPixel 0 255],
        [GrayPixel 0 255, GrayPixel 0 255, GrayPixel 80 255]]
       {Point 0 0} [Point 2 2, Point 1 1]
     = Inr ([[GrayPixel 200 255, GrayPixel 0 255, GrayPixel 0 255],
             [GrayPixel 0 255, GrayPixel 0 255, GrayPixel 0 255],
             [GrayPixel 0 255, GrayPixel 0 255, GrayPixel 0 255]],
            {Point 0 0, Point 1 1})"
  by (simp add: doublethreshold_def doublethresholdStep_def edgeTracking_def edgeTrackingStep_def
        getAdjacentPixels_def idx_def at2_def set_y_def upto_rec1 Let_def insert_commute)

text \<open>
  Claim C8, amended. During edge tracking the promotion of a weak pixel \<open>w\<close> is decided
  against the strong set as it is when \<open>w\<close> is visited: the strong set of the classifier
  together with weak pixels promoted earlier in the same pass (\<open>strong1\<close>, the set after the
  points \<open>pre\<close> delivered before \<open>w\<close>). So \<open>w\<close> ends in the strong set exactly when it
  already was in \<open>strong1\<close> or one of its computed neighbours is in \<open>strong1\<close>, and a pixel
  promoted earlier can cause the promotion of a later one.
\<close>

theorem edgeTracking_promotion_uses_current_strong_set:
  assumes before: "edgeTracking pixels strong pre = Inr (pixels1, strong1)"
    and final: "edgeTracking pixels strong (pre @ w # post) = Inr (pixels2, strong2)"
    and once: "w \<notin> set post"
    and adj: "getAdjacentPixels pixels (ptX w) (ptY w) = Inr neighbours"
  shows "(w \<in> strong2 \<longleftrightarrow> w \<in> strong1 \<or> strong1 \<inter> neighbours \<noteq> {})
         \<and> strong \<subseteq> strong1 \<and> strong1 \<subseteq> strong \<union> set pre"
proof -
  from edgeTracking_invariant [OF before]
  have dims1: "map length pixels1 = map length pixels"
    and mono: "strong \<subseteq> strong1" "strong1 \<subseteq> strong \<union> set pre"
    by simp_all
  from final before have "edgeTracking pixels1 strong1 (w # post) = Inr (pixels2, strong2)"
    by (simp add: edgeTracking_append)
  then have "bindP (edgeTrackingStep w (pixels1, strong1))
                 (\<lambda>(p, s). edgeTracking p s post) = Inr (pixels2, strong2)"
    by (simp only: edgeTracking_Cons)
  then obtain ps where "edgeTrackingStep w (pixels1, strong1) = Inr ps"
    and "(\<lambda>(p, s). edgeTracking p s post) ps = Inr (pixels2, strong2)"
    unfolding bindP_Inr_iff by blast
  then obtain p s where step: "edgeTrackingStep w (pixels1, strong1) = Inr (p, s)"
    and rest: "edgeTracking p s post = Inr (pixels2, strong2)"
    by (cases ps) simp
  from adj have "getAdjacentPixels pixels1 (ptX w) (ptY w) = Inr neighbours"
    by (simp only: getAdjacentPixels_dims [OF dims1])
  with step have s: "s = (if strong1 \<inter> neighbours \<noteq> {} then insert w strong1 else strong1)"
    unfolding edgeTrackingStep_Inr_iff by simp
  from edgeTracking_invariant [OF rest] have "s \<subseteq> strong2" "strong2 \<subseteq> s \<union> set post"
    by simp_all
  with once have "w \<in> strong2 \<longleftrightarrow> w \<in> s" by auto
  also have "\<dots> \<longleftrightarrow> w \<in> strong1 \<or> strong1 \<inter> neighbours \<noteq> {}"
    by (simp add: s)
  finally show ?thesis using mono by simp
qed

theorem edgeTracking_promotion_uses_current_strong_set_witness:
  "edgeTracking
     [[GrayPixel 200 255, GrayPixel 0 255, GrayPixel 0 255],
      [GrayPixel 0 255, GrayPixel 80 255, GrayPixel 0 255],
      [GrayPixel 0 255, GrayPixel 0 255, GrayPixel 80 255]]
     {Point 0 0} [Point 1 1]
     = Inr ([[GrayPixel 200 255, GrayPixel 0 255, GrayPixel 0 255],
             [GrayPixel 0 255, GrayPixel 0 255, GrayPixel 0 255],
             [GrayPixel 0 255, GrayPixel 0 255, GrayPixel 80 255]],
            {Point 0 0, Point 1 1})
   \<and> Point 2 2 \<notin> set ([] :: Point list)
   \<and> (Point 2 2 \<in> {Point 0 0, Point 1 1, Point 2 2}
        \<longleftrightarrow> Point 2 2 \<in> {Point 0 0, Point 1 1} \<or> {Point 0 0, Point 1 1} \<inter> {Point 1 1} \<noteq> {})"
proof -
  let ?img = "[[GrayPixel 200 255, GrayPixel 0 255, GrayPixel 0 255],
               [GrayPixel 0 255, GrayPixel 80 255, GrayPixel 0 255],
               [GrayPixel 0 255, GrayPixel 0 255, GrayPixel 80 255]]"
  let ?img1 = "[[GrayPixel 200 255, GrayPixel 0 255, GrayPixel 0 255],
                [GrayPixel 0 255, GrayPixel 0 255, GrayPixel 0 255],
                [GrayPixel 0 255, GrayPixel 0 255, GrayPixel 80 255]]"
  let ?img2 = "[[GrayPixel 200 255, GrayPixel 0 255, GrayPixel 0 255],
                [GrayPixel 0 255, GrayPixel 0 255, GrayPixel 0 255],
                [GrayPixel 0 255, GrayPixel 0 255, GrayPixel 0 255]]"
  have before: "edgeTracking ?img {Point 0 0} [Point 1 1] = Inr (?img1, {Point 0 0, Point 1 1})"
    by (simp add: edgeTracking_def edgeTrackingStep_def getAdjacentPixels_def idx_def set_y_def
          upto_rec1 Let_def insert_commute)
  have final: "edgeTracking ?img {Point 0 0} ([Point 1 1] @ Point 2 2 # [])
                 = Inr (?img2, {Point 0 0, Point 1 1, Point 2 2})"
    by (simp add: edgeTracking_def edgeTrackingStep_def getAdjacentPixels_def idx_def set_y_def
          upto_rec1 Let_def insert_commute)
  have once: "Point 2 2 \<notin> set ([] :: Point list)" by simp
  have adj: "getAdjacentPixels ?img (ptX (Point 2 2)) (ptY (Point 2 2)) = Inr {Point 1 1}"
    by (simp add: getAdjacentPixels_def idx_def upto_rec1 Let_def)
  from edgeTracking_promotion_uses_current_strong_set [OF before final once adj] before once
  show ?thesis by blast
qed

text \<open>
  Claim C1 says that a weak pixel with a strong pixel anywhere in its 8-neighbourhood is
  promoted. On the image below the classifier makes \<open>(1,0)\<close> strong and its left
  neighbour \<open>(0,0)\<close> weak; \<^const>\<open>getAdjacentPixels\<close> gives no neighbour at all for
  \<open>(0,0)\<close>, and edge tracking leaves \<open>(0,0)\<close> out of the strong set.
\<close>

theorem edgeTracking_ignores_strong_right_neighbour:
  "doublethreshold [[GrayPixel 80 255, GrayPixel 200 255], [GrayPixel 0 255, GrayPixel 0 255]] 100 50
     = Inr ([[GrayPixel 80 255, GrayPixel 200 255], [GrayPixel 0 255, GrayPixel 0 255]],
            {Point 1 0}, {Point 0 0})
   \<and> getAdjacentPixels [[GrayPixel 80 255, GrayPixel 200 255], [GrayPixel 0 255, GrayPixel 0 255]] 0 0
     = Inr {}
   \<and> edgeTracking [[GrayPixel 80 255, GrayPixel 200 255], [GrayPixel 0 255, GrayPixel 0 255]]
       {Point 1 0} [Point 0 0]
     = Inr ([[GrayPixel 0 255, GrayPixel 200 255], [GrayPixel 0 255, GrayPixel 0 255]], {Point 1 0})"
  by (simp add: doublethreshold_def doublethresholdStep_def edgeTracking_def edgeTrackingStep_def
        getAdjacentPixels_def idx_def at2_def set_y_def upto_rec1 upt_rec Let_def)

section \<open>Determinism of the pipeline\<close>

text \<open>
  Claim C9. The pipeline is a function of the input image, the parameters and the order in
  which the iterator delivers the weak set. For every input image and all parameters, and
  whatever the rounding of the two threshold products, two runs whose iterators deliver
  the same elements, in whatever order, give the same result, pixel for pixel (and panic
  alike when the run panics): the final image does not depend on the iteration order of
  the weak set.
\<close>

theorem CannyEdgeDetect_independent_of_iteration_order:
  assumes "\<And>S. set (iter1 S) = set (iter2 S)"
  shows "CannyEdgeDetect fmul iter1 pixels blur minRatio maxRatio
           = CannyEdgeDetect fmul iter2 pixels blur minRatio maxRatio"
proof -
  have final: "bindP (edgeTracking p s (iter1 W)) (\<lambda>(pixels, strong). Inr pixels)
                 = bindP (edgeTracking p s (iter2 W)) (\<lambda>(pixels, strong). Inr pixels)"
    for p s W
  proof -
    have proj: "bindP m (\<lambda>(pixels, strong). Inr pixels) = map_sum id fst m"
      for m :: "panic + (GrayPixel list list \<times> Point set)"
      by (cases m) auto
    show ?thesis
      unfolding proj by (rule edgeTracking_image_order) (rule assms)
  qed
  show ?thesis
    unfolding CannyEdgeDetect_def Let_def final ..
qed

text \<open>
  A run in both orders: the ratios \<open>1/4\<close> and \<open>1/2\<close> and the maximum 240 have the
  products 60 and 120, which \<^verbatim>\<open>float64\<close> computes without rounding.
\<close>

theorem CannyEdgeDetect_independent_of_iteration_order_witness:
  "(\<forall>S. set (filter (\<lambda>p. p \<in> S) [Point 4 0, Point 4 1])
         = set (filter (\<lambda>p. p \<in> S) [Point 4 1, Point 4 0]))
   \<and> CannyEdgeDetect (*) (\<lambda>S. filter (\<lambda>p. p \<in> S) [Point 4 0, Point 4 1])
     [[GrayPixel 0 255, GrayPixel 0 255, GrayPixel 60 255, GrayPixel 60 255, GrayPixel 40 255, GrayPixel 40 255],
      [GrayPixel 0 255, GrayPixel 0 255, GrayPixel 60 255, GrayPixel 60 255, GrayPixel 40 255, GrayPixel 40 255]]
     False (1/4) (1/2)
     = Inr [[GrayPixel 0 255, GrayPixel 240 255, GrayPixel 240 255, GrayPixel 0 255, GrayPixel 0 255, GrayPixel 0 255],
          [GrayPixel 0 255, GrayPixel 240 255, GrayPixel 240 255, GrayPixel 0 255, GrayPixel 0 255, GrayPixel 0 255]]
   \<and> CannyEdgeDetect (*) (\<lambda>S. filter (\<lambda>p. p \<in> S) [Point 4 1, Point 4 0])
     [[GrayPixel 0 255, GrayPixel 0 255, GrayPixel 60 255, GrayPixel 60 255, GrayPixel 40 255, GrayPixel 40 255],
      [GrayPixel 0 255, GrayPixel 0 255, GrayPixel 60 255, GrayPixel 60 255, GrayPixel 40 255, GrayPixel 40 255]]
     False (1/4) (1/2)
     = Inr [[GrayPixel 0 255, GrayPixel 240 255, GrayPixel 240 255, GrayPixel 0 255, GrayPixel 0 255, GrayPixel 0 255],
          [GrayPixel 0 255, GrayPixel 240 255, GrayPixel 240 255, GrayPixel 0 255, GrayPixel 0 255, GrayPixel 0 255]]"
proof -
  have same: "set (filter (\<lambda>p. p \<in> S) [Point 4 0, Point 4 1])
         = set (filter (\<lambda>p. p \<in> S) [Point 4 1, Point 4 0])" for S
    by auto
  note order = CannyEdgeDetect_independent_of_iteration_order
         [of "\<lambda>S. filter (\<lambda>p. p \<in> S) [Point 4 0, Point 4 1]"
             "\<lambda>S. filter (\<lambda>p. p \<in> S) [Point 4 1, Point 4 0]",
          OF same]
  show ?thesis
    using same pipeline_eval unfolding order [symmetric] by blast
qed

section \<open>Non-maximum suppression at the border\<close>



section \<open>Opacity written by the blur and gradient stages\<close>

text \<open>
  Claim C5 as stated has the opacity of every input pixel copied to the output pixel at
  the same coordinate. The blur stage builds \<^verbatim>\<open>GrayPixel{combinedRes, 255}\<close>: an image
  whose pixels all have opacity 7 comes back with opacity 255 everywhere.
\<close>

theorem gaussianBlur_overwrites_opacity:
  "gaussianBlur
     [[GrayPixel 0 7, GrayPixel 0 7, GrayPixel 0 7],
      [GrayPixel 0 7, GrayPixel 0 7, GrayPixel 0 7],
      [GrayPixel 0 7, GrayPixel 0 7, GrayPixel 0 7]] 5
   = Inr [[GrayPixel 0 255, GrayPixel 0 255, GrayPixel 0 255],
          [GrayPixel 0 255, GrayPixel 0 255, GrayPixel 0 255],
          [GrayPixel 0 255, GrayPixel 0 255, GrayPixel 0 255]]"
  by (rule gaussianBlur_zero_image)

text \<open>
  Claim C5, amended. For every input image on which they return, the Blur Stage and the
  Gradient Stage give an image of the same dimensions in which every pixel has opacity
  255, whatever the opacity of the input pixel at that coordinate. They do return on every
  image whose rows have one length: the blur for an odd kernel size of which the half is
  below the height and the width, the gradient for at least two rows and two columns.
\<close>

theorem blur_and_gradient_write_opacity_255:
  "((\<forall>row\<in>set pixels. length row = length (pixels ! 0)) \<and> odd kernelSize \<and>
      kernelSize div 2 < length pixels \<and> kernelSize div 2 < length (pixels ! 0) \<longrightarrow>
      (\<exists>blurred. gaussianBlur pixels kernelSize = Inr blurred))
   \<and> (gaussianBlur pixels kernelSize = Inr blurred \<longrightarrow>
      length blurred = length pixels \<and>
      (\<forall>y<length pixels. length (blurred ! y) = length (pixels ! y) \<and>
         (\<forall>x<length (pixels ! y). pix_a (blurred ! y ! x) = 255)))
   \<and> ((\<forall>row\<in>set pixels. length row = length (pixels ! 0)) \<and>
      2 \<le> length pixels \<and> 2 \<le> length (pixels ! 0) \<longrightarrow>
      (\<exists>gradient directions. sobel pixels = Inr (gradient, directions)))
   \<and> (sobel pixels = Inr (gradient, directions) \<longrightarrow>
      length gradient = length pixels \<and>
      (\<forall>y<length pixels. length (gradient ! y) = length (pixels ! y) \<and>
         (\<forall>x<length (pixels ! y). pix_a (gradient ! y ! x) = 255)))"
proof (intro conjI impI)
  assume "(\<forall>row\<in>set pixels. length row = length (pixels ! 0)) \<and> odd kernelSize \<and>
      kernelSize div 2 < length pixels \<and> kernelSize div 2 < length (pixels ! 0)"
  then show "\<exists>blurred. gaussianBlur pixels kernelSize = Inr blurred"
    by (intro gaussianBlur_total) simp_all
next
  assume "(\<forall>row\<in>set pixels. length row = length (pixels ! 0)) \<and>
      2 \<le> length pixels \<and> 2 \<le> length (pixels ! 0)"
  then show "\<exists>gradient directions. sobel pixels = Inr (gradient, directions)"
    by (intro sobel_total) simp_all
next
  assume "gaussianBlur pixels kernelSize = Inr blurred"
  then obtain kern where
    run: "mapP (\<lambda>y. mapP (gaussianBlurPixel pixels kern y) [0..<length (pixels ! y)])
            [0..<length pixels] = Inr blurred"
    by (auto simp: gaussianBlur_def Let_def split: if_splits)
  note g = mapP_grid [OF run]
  show "length blurred = length pixels" by (rule g(1))
  show "\<forall>y<length pixels. length (blurred ! y) = length (pixels ! y) \<and>
         (\<forall>x<length (pixels ! y). pix_a (blurred ! y ! x) = 255)"
    using g(2) g(3) [THEN gaussianBlurPixel_alpha] by blast
next
  assume "sobel pixels = Inr (gradient, directions)"
  then obtain kx ky rows where
    run: "mapP (\<lambda>y. mapP (sobelPixel pixels kx ky y) [0..<length (pixels ! y)])
            [0..<length pixels] = Inr rows"
    and res: "gradient = map (map fst) rows"
    by (auto simp: sobel_def bindP_Inr_iff)
  note g = mapP_grid [OF run]
  show "length gradient = length pixels" by (simp add: res g(1))
  show "\<forall>y<length pixels. length (gradient ! y) = length (pixels ! y) \<and>
         (\<forall>x<length (pixels ! y). pix_a (gradient ! y ! x) = 255)"
  proof (intro allI impI conjI)
    fix y assume y: "y < length pixels"
    then show "length (gradient ! y) = length (pixels ! y)"
      by (simp add: res g(1) g(2))
    fix x assume x: "x < length (pixels ! y)"
    from g(3) [OF y x] have "sobelPixel pixels kx ky y x = Inr (fst (rows ! y ! x), snd (rows ! y ! x))"
      by simp
    then have "pix_a (fst (rows ! y ! x)) = 255" by (rule sobelPixel_alpha)
    then show "pix_a (gradient ! y ! x) = 255"
      using y x by (simp add: res g(1) g(2))
  qed
qed

theorem blur_and_gradient_write_opacity_255_witness:
  "pix_a ([[GrayPixel 0 7, GrayPixel 0 7, GrayPixel 0 7],
           [GrayPixel 0 7, GrayPixel 0 7, GrayPixel 0 7],
           [GrayPixel 0 7, GrayPixel 0 7, GrayPixel 0 7]] ! 1 ! 1) = 7
   \<and> (\<exists>blurred gradient directions.
        gaussianBlur
          [[GrayPixel 0 7, GrayPixel 0 7, GrayPixel 0 7],
           [GrayPixel 0 7, GrayPixel 0 7, GrayPixel 0 7],
           [GrayPixel 0 7, GrayPixel 0 7, GrayPixel 0 7]] 5 = Inr blurred
        \<and> sobel
          [[GrayPixel 0 7, GrayPixel 0 7, GrayPixel 0 7],
           [GrayPixel 0 7, GrayPixel 0 7, GrayPixel 0 7],
           [GrayPixel 0 7, GrayPixel 0 7, GrayPixel 0 7]] = Inr (gradient, directions)
        \<and> pix_a (blurred ! 1 ! 1) = 255 \<and> pix_a (gradient ! 1 ! 1) = 255)"
proof -
  let ?img = "[[GrayPixel 0 7, GrayPixel 0 7, GrayPixel 0 7],
               [GrayPixel 0 7, GrayPixel 0 7, GrayPixel 0 7],
               [GrayPixel 0 7, GrayPixel 0 7, GrayPixel 0 7]]"
  have pre: "(\<forall>row\<in>set ?img. length row = length (?img ! 0)) \<and> odd (5 :: nat) \<and>
      (5 :: nat) div 2 < length ?img \<and> (5 :: nat) div 2 < length (?img ! 0)"
    "(\<forall>row\<in>set ?img. length row = length (?img ! 0)) \<and>
      2 \<le> length ?img \<and> 2 \<le> length (?img ! 0)"
    by simp_all
  note inst = blur_and_gradient_write_opacity_255 [where pixels = ?img and kernelSize = 5]
  from inst [THEN conjunct1, rule_format, OF pre(1)]
  obtain blurred where b: "gaussianBlur ?img 5 = Inr blurred" by blast
  from inst [THEN conjunct2, THEN conjunct2, THEN conjunct1, rule_format, OF pre(2)]
  obtain gradient directions where s: "sobel ?img = Inr (gradient, directions)" by blast
  from blur_and_gradient_write_opacity_255
      [where pixels = ?img and kernelSize = 5 and blurred = blurred,
       THEN conjunct2, THEN conjunct1, rule_format, OF b]
  have "pix_a (blurred ! 1 ! 1) = 255" by simp
  moreover
  from blur_and_gradient_write_opacity_255
      [where pixels = ?img and gradient = gradient and directions = directions,
       THEN conjunct2, THEN conjunct2, THEN conjunct2, rule_format, OF s]
  have "pix_a (gradient ! 1 ! 1) = 255" by simp
  ultimately show ?thesis using b s by auto
qed

section \<open>Magnitude written by the gradient stage\<close>

text \<open>
  Claim C4 as stated has the magnitude clamped, so that 255 is stored whenever
  \<open>sqrt (Gx\<^sup>2 + Gy\<^sup>2)\<close> exceeds 255. On the image below the pixel \<open>(1,1)\<close> has \<open>Gx = 1020\<close>
  and \<open>Gy = 0\<close>, and the intensity stored is 252, the low eight bits of 1020.
\<close>

theorem sobel_magnitude_not_clamped:
  "bindP (getSorroundingPixelMatrix
            [[GrayPixel 255 255, GrayPixel 0 255, GrayPixel 0 255],
             [GrayPixel 255 255, GrayPixel 0 255, GrayPixel 0 255],
             [GrayPixel 255 255, GrayPixel 0 255, GrayPixel 0 255]] 1 1 3)
         (\<lambda>pane. convolve pane (Dense 3 3 SOBEL_X)) = Inr 1020
   \<and> bindP (getSorroundingPixelMatrix
            [[GrayPixel 255 255, GrayPixel 0 255, GrayPixel 0 255],
             [GrayPixel 255 255, GrayPixel 0 255, GrayPixel 0 255],
             [GrayPixel 255 255, GrayPixel 0 255, GrayPixel 0 255]] 1 1 3)
         (\<lambda>pane. convolve pane (Dense 3 3 SOBEL_Y)) = Inr 0
   \<and> sobel
       [[GrayPixel 255 255, GrayPixel 0 255, GrayPixel 0 255],
        [GrayPixel 255 255, GrayPixel 0 255, GrayPixel 0 255],
        [GrayPixel 255 255, GrayPixel 0 255, GrayPixel 0 255]]
     = Inr ([[GrayPixel 0 255, GrayPixel 252 255, GrayPixel 0 255],
             [GrayPixel 0 255, GrayPixel 252 255, GrayPixel 0 255],
             [GrayPixel 0 255, GrayPixel 252 255, GrayPixel 0 255]],
            [[0, 0, 0], [0, 0, 0], [0, 0, 0]])"
  by (simp add: sobel_step_image getSorroundingPixelMatrix_def eval_simps)

text \<open>
  Claim C4, amended. For every image on which the Gradient Stage returns (it does on every
  image with rows of one length, at least two rows and two columns) and every pixel, the
  magnitude written is the conversion \<^verbatim>\<open>uint8\<close> of \<open>sqrt (Gx\<^sup>2 + Gy\<^sup>2)\<close>, without a clamp:
  its value is the integer part of \<open>sqrt (Gx\<^sup>2 + Gy\<^sup>2)\<close> modulo 256, which is the integer
  part itself whenever \<open>sqrt (Gx\<^sup>2 + Gy\<^sup>2)\<close> is below 256.
\<close>

theorem sobel_magnitude_is_uint8_of_sqrt:
  "((\<forall>row\<in>set pixels. length row = length (pixels ! 0)) \<and>
      2 \<le> length pixels \<and> 2 \<le> length (pixels ! 0) \<longrightarrow>
      (\<exists>gradient directions. sobel pixels = Inr (gradient, directions)))
   \<and> (sobel pixels = Inr (gradient, directions) \<and> y < length pixels \<and> x < length (pixels ! y) \<longrightarrow>
      (\<exists>pane gx gy.
         getSorroundingPixelMatrix pixels (int y) (int x) 3 = Inr pane \<and>
         convolve pane (Dense 3 3 SOBEL_X) = Inr gx \<and>
         convolve pane (Dense 3 3 SOBEL_Y) = Inr gy \<and>
         uint (pix_y (gradient ! y ! x)) = \<lfloor>sqrt (gx\<^sup>2 + gy\<^sup>2)\<rfloor> mod 256 \<and>
         (sqrt (gx\<^sup>2 + gy\<^sup>2) < 256 \<longrightarrow>
            uint (pix_y (gradient ! y ! x)) = \<lfloor>sqrt (gx\<^sup>2 + gy\<^sup>2)\<rfloor>)))"
proof (intro conjI impI)
  assume "(\<forall>row\<in>set pixels. length row = length (pixels ! 0)) \<and>
      2 \<le> length pixels \<and> 2 \<le> length (pixels ! 0)"
  then show "\<exists>gradient directions. sobel pixels = Inr (gradient, directions)"
    by (intro sobel_total) simp_all
next
  assume a: "sobel pixels = Inr (gradient, directions) \<and> y < length pixels \<and> x < length (pixels ! y)"
  then have run: "sobel pixels = Inr (gradient, directions)"
    and y: "y < length pixels" and x: "x < length (pixels ! y)" by simp_all
  have kx: "NewDense 3 3 SOBEL_X = Inr (Dense 3 3 SOBEL_X)"
    and ky: "NewDense 3 3 SOBEL_Y = Inr (Dense 3 3 SOBEL_Y)"
    by (simp_all add: NewDense_def SOBEL_X_def SOBEL_Y_def)
  from run obtain rows where
    loop: "mapP (\<lambda>y. mapP (sobelPixel pixels (Dense 3 3 SOBEL_X) (Dense 3 3 SOBEL_Y) y)
                       [0..<length (pixels ! y)]) [0..<length pixels] = Inr rows"
    and res: "gradient = map (map fst) rows"
    unfolding sobel_def kx ky bindP.simps by (auto simp: bindP_Inr_iff)
  note g = mapP_grid [OF loop]
  from g(3) [OF y x] obtain pane gx gy where
    pane: "getSorroundingPixelMatrix pixels (int y) (int x) 3 = Inr pane"
    and gx: "convolve pane (Dense 3 3 SOBEL_X) = Inr gx"
    and gy: "convolve pane (Dense 3 3 SOBEL_Y) = Inr gy"
    and raw: "Inr (GrayPixel (uint8_of_float64 (sqrt (gx\<^sup>2 + gy\<^sup>2))) 255,
                   (if gx = 0 \<or> gy = 0 then 0 else arctan (gy / gx)) * (180 / pi))
              = (Inr (rows ! y ! x) :: panic + GrayPixel \<times> real)"
    unfolding sobelPixel_def bindP_Inr_iff Let_def by blast
  from raw have px: "fst (rows ! y ! x) = GrayPixel (uint8_of_float64 (sqrt (gx\<^sup>2 + gy\<^sup>2))) 255"
    by (cases "rows ! y ! x") simp
  from y x have "gradient ! y ! x = fst (rows ! y ! x)"
    by (simp add: res g(1) g(2))
  with px have val: "uint (pix_y (gradient ! y ! x)) = \<lfloor>sqrt (gx\<^sup>2 + gy\<^sup>2)\<rfloor> mod 256"
    by (simp add: uint8_of_float64_sqrt)
  have small: "uint (pix_y (gradient ! y ! x)) = \<lfloor>sqrt (gx\<^sup>2 + gy\<^sup>2)\<rfloor>"
    if "sqrt (gx\<^sup>2 + gy\<^sup>2) < 256"
  proof -
    have "0 \<le> \<lfloor>sqrt (gx\<^sup>2 + gy\<^sup>2)\<rfloor>" by simp
    moreover from that have "\<lfloor>sqrt (gx\<^sup>2 + gy\<^sup>2)\<rfloor> < 256" by (simp add: floor_less_iff)
    ultimately show ?thesis unfolding val by simp
  qed
  from pane gx gy val small
  show "\<exists>pane gx gy.
         getSorroundingPixelMatrix pixels (int y) (int x) 3 = Inr pane \<and>
         convolve pane (Dense 3 3 SOBEL_X) = Inr gx \<and>
         convolve pane (Dense 3 3 SOBEL_Y) = Inr gy \<and>
         uint (pix_y (gradient ! y ! x)) = \<lfloor>sqrt (gx\<^sup>2 + gy\<^sup>2)\<rfloor> mod 256 \<and>
         (sqrt (gx\<^sup>2 + gy\<^sup>2) < 256 \<longrightarrow>
            uint (pix_y (gradient ! y ! x)) = \<lfloor>sqrt (gx\<^sup>2 + gy\<^sup>2)\<rfloor>)"
    by blast
qed

theorem sobel_magnitude_is_uint8_of_sqrt_witness:
  "(\<exists>gradient directions.
      sobel [[GrayPixel 255 255, GrayPixel 0 255, GrayPixel 0 255],
             [GrayPixel 255 255, GrayPixel 0 255, GrayPixel 0 255],
             [GrayPixel 255 255, GrayPixel 0 255, GrayPixel 0 255]] = Inr (gradient, directions))
   \<and> (\<exists>pane gx gy.
     getSorroundingPixelMatrix
       [[GrayPixel 255 255, GrayPixel 0 255, GrayPixel 0 255],
        [GrayPixel 255 255, GrayPixel 0 255, GrayPixel 0 255],
        [GrayPixel 255 255, GrayPixel 0 255, GrayPixel 0 255]] 1 1 3 = Inr pane \<and>
     convolve pane (Dense 3 3 SOBEL_X) = Inr gx \<and>
     convolve pane (Dense 3 3 SOBEL_Y) = Inr gy \<and>
     \<lfloor>sqrt (gx\<^sup>2 + gy\<^sup>2)\<rfloor> mod 256 = 252)"
proof -
  let ?img = "[[GrayPixel 255 255, GrayPixel 0 255, GrayPixel 0 255],
               [GrayPixel 255 255, GrayPixel 0 255, GrayPixel 0 255],
               [GrayPixel 255 255, GrayPixel 0 255, GrayPixel 0 255]]"
  let ?grad = "[[GrayPixel 0 255, GrayPixel 252 255, GrayPixel 0 255],
                [GrayPixel 0 255, GrayPixel 252 255, GrayPixel 0 255],
                [GrayPixel 0 255, GrayPixel 252 255, GrayPixel 0 255]]"
  let ?dirs = "[[0, 0, 0], [0, 0, 0], [0, 0, 0 :: real]]"
  note inst = sobel_magnitude_is_uint8_of_sqrt
    [where pixels = ?img and gradient = ?grad and directions = ?dirs and y = 1 and x = 1]
  have rect: "(\<forall>row\<in>set ?img. length row = length (?img ! 0)) \<and>
      2 \<le> length ?img \<and> 2 \<le> length (?img ! 0)" by simp
  from inst [THEN conjunct1, rule_format, OF rect]
  have total: "\<exists>gradient directions. sobel ?img = Inr (gradient, directions)" .
  have run: "sobel ?img = Inr (?grad, ?dirs) \<and> 1 < length ?img \<and> 1 < length (?img ! 1)"
    using sobel_step_image by simp
  from inst [THEN conjunct2, rule_format, OF run]
  obtain pane gx gy where
    "getSorroundingPixelMatrix ?img (int 1) (int 1) 3 = Inr pane"
    "convolve pane (Dense 3 3 SOBEL_X) = Inr gx"
    "convolve pane (Dense 3 3 SOBEL_Y) = Inr gy"
    "uint (pix_y (?grad ! 1 ! 1)) = \<lfloor>sqrt (gx\<^sup>2 + gy\<^sup>2)\<rfloor> mod 256"
    by blast
  then have "getSorroundingPixelMatrix ?img 1 1 3 = Inr pane \<and>
     convolve pane (Dense 3 3 SOBEL_X) = Inr gx \<and>
     convolve pane (Dense 3 3 SOBEL_Y) = Inr gy \<and>
     \<lfloor>sqrt (gx\<^sup>2 + gy\<^sup>2)\<rfloor> mod 256 = 252"
    by simp
  with total show ?thesis by blast
qed

section \<open>Border samples\<close>

text \<open>
  Claim C2 says that a sample one column beyond the left border is the pixel of column 1.
  For the centre \<open>(x, y) = (1, 0)\<close> and length 5 on a row of intensities
  \<open>10, 20, 30, 40, 50\<close> the raw columns are \<open>-1, 0, 1, 2, 3\<close>; the code reads \<^verbatim>\<open>pixels[posY][posX+abs(i)]\<close>, which is column 2
  (intensity 30) and not the mirror column 1 (intensity 20).
\<close>

theorem getPixelVector_not_a_mirror:
  "getPixelVector
     [[GrayPixel 10 255, GrayPixel 20 255, GrayPixel 30 255, GrayPixel 40 255, GrayPixel 50 255],
      [GrayPixel 0 255, GrayPixel 0 255, GrayPixel 0 255, GrayPixel 0 255, GrayPixel 0 255],
      [GrayPixel 0 255, GrayPixel 0 255, GrayPixel 0 255, GrayPixel 0 255, GrayPixel 0 255]]
     0 1 5 HORIZONTAL = Inr [30, 10, 20, 30, 40]"
  by (simp add: getPixelVector_def eval_simps)

section \<open>Blur of a flat image\<close>

text \<open>
  Claim C3 says that the blur of an image of constant intensity \<open>c\<close> has intensity \<open>c\<close>
  again. Both inner products are \<open>c\<close>, and the code stores
  \<^verbatim>\<open>uint8(math.Sqrt(verticalSum*verticalSum + horizontalSum*horizontalSum))\<close>: for
  \<open>c = 100\<close> this is the integer part of \<open>sqrt 20000\<close>, 141.
\<close>

theorem gaussianBlur_flat_image_brightens:
  "gaussianBlur
     [[GrayPixel 100 255, GrayPixel 100 255, GrayPixel 100 255],
      [GrayPixel 100 255, GrayPixel 100 255, GrayPixel 100 255],
      [GrayPixel 100 255, GrayPixel 100 255, GrayPixel 100 255]] 5
   = Inr [[GrayPixel 141 255, GrayPixel 141 255, GrayPixel 141 255],
          [GrayPixel 141 255, GrayPixel 141 255, GrayPixel 141 255],
          [GrayPixel 141 255, GrayPixel 141 255, GrayPixel 141 255]]"
  by (simp add: gaussianBlur_def gaussianBlurPixel_def getPixelVector_def kernel5 eval_simps sqrt_20000)

end
